theory Spec2Isabelle
  imports Main "HOL-Library.Word" "HOL-Library.Signed_Division"
begin

unbundle bit_operations_syntax

section \<open>Snowflake identifier generator (snowflake.go)\<close>

text \<open>
  The package has one stateful operation, \<open>worker.Next\<close>, a constructor \<open>NewWorker\<close> and
  a spin loop \<open>tilNextMillis\<close>. Go's \<open>int64\<close> is a 64-bit word read in two's complement
  (\<open>sint\<close>, \<open><s\<close>, \<open>\<le>s\<close>), \<open>uint8\<close> an 8-bit word. \<open>Next\<close> below is a call that
  runs alone. The mutex appears where calls overlap: there a call is split at \<open>Lock\<close>, and
  the locked parts of two calls run one after the other.
\<close>

type_synonym int64 = "64 word"
type_synonym uint8 = "8 word"

subsection \<open>Constants\<close>

text \<open>
  The constants of the \<open>const\<close> block are untyped in Go: they are computed exactly, as
  mathematical integers, and converted where they are used. Go's binary \<open>^\<close> is XOR and
  \<open><<\<close> is the left shift.
\<close>

definition twepoch :: int where
  "twepoch = 1546272000000"

definition workerIDBits :: nat where
  "workerIDBits = 5"

definition datacenterIDBits :: nat where
  "datacenterIDBits = 5"

definition maxWorkerID :: int where
  "maxWorkerID = (- 1) XOR (push_bit workerIDBits (- 1))"

definition maxDatacenterID :: int where
  "maxDatacenterID = (- 1) XOR (push_bit datacenterIDBits (- 1))"

definition sequenceBits :: nat where
  "sequenceBits = 12"

definition workerIDShift :: nat where
  "workerIDShift = sequenceBits"

definition datacenterIDShift :: nat where
  "datacenterIDShift = sequenceBits + workerIDBits"

definition timestampLeftShift :: nat where
  "timestampLeftShift = sequenceBits + workerIDBits + datacenterIDBits"

definition sequenceMask :: int where
  "sequenceMask = (- 1) XOR (push_bit sequenceBits (- 1))"

subsection \<open>The generator\<close>

record worker =
  workerID :: int64
  datacenterID :: int64
  sequence :: int64
  lastTimestamp :: int64

text \<open>
  \<open>log.Fatalf\<close> prints its message and ends the process with \<open>os.Exit(1)\<close>: the
  constructor does not return. \<open>fmt.Errorf\<close> in \<open>Next\<close> builds an error whose text holds
  the value \<open>w.lastTimestamp - timestamp\<close>.
\<close>

datatype error =
    FatalWorkerID int
  | FatalDatacenterID int
  | ClockMovedBackwards int64

definition NewWorker :: "uint8 \<Rightarrow> uint8 \<Rightarrow> error + worker" where
  "NewWorker wid dcid =
     (if uint wid > maxWorkerID then Inl (FatalWorkerID maxWorkerID)
      else if uint dcid > maxDatacenterID then Inl (FatalDatacenterID maxDatacenterID)
      else Inr \<lparr> workerID = ucast wid, datacenterID = ucast dcid,
                 sequence = 0, lastTimestamp = 0 \<rparr>)"

definition DefaultWorker :: worker where
  "DefaultWorker = \<lparr> workerID = 0, datacenterID = 0, sequence = 0, lastTimestamp = 0 \<rparr>"

subsection \<open>The clock\<close>

text \<open>
  The system clock is the environment of the program. A clock is the sequence of the values
  that successive calls of \<open>time.Now().UnixNano()\<close> return; the position of the next
  reading is threaded through the operations. \<open>now_ms\<close> is the expression
  \<open>time.Now().UnixNano() / 1e6\<close>: Go's integer division truncates towards zero.
\<close>

type_synonym clock = "nat \<Rightarrow> int64"

definition now_ms :: "clock \<Rightarrow> nat \<Rightarrow> int64" where
  "now_ms clk i = word_of_int (sint (clk i) sdiv 1000000)"

text \<open>
  \<open>tilNextMillis\<close> reads the clock until the reading is after \<open>lastTimestamp\<close>. The loop
  has no bound: on a clock that never passes \<open>lastTimestamp\<close> it does not return, which is
  the value \<open>None\<close>. The result holds the reading and the position of the next one.
\<close>

partial_function (option) tilNextMillis :: "clock \<Rightarrow> nat \<Rightarrow> int64 \<Rightarrow> (int64 \<times> nat) option" where
  "tilNextMillis clk i lastTs =
     (let timestamp = now_ms clk i in
      if timestamp \<le>s lastTs then tilNextMillis clk (Suc i) lastTs
      else Some (timestamp, Suc i))"

declare tilNextMillis.simps [code]

subsection \<open>Next\<close>

text \<open>
  \<open>compose\<close> is the expression assigned to \<open>id\<close> at the end of \<open>Next\<close>, read on the
  generator after \<open>sequence\<close> and \<open>lastTimestamp\<close> have been assigned.
\<close>

definition compose :: "int64 \<Rightarrow> worker \<Rightarrow> int64" where
  "compose timestamp w =
     push_bit timestampLeftShift (timestamp - word_of_int twepoch)
       OR push_bit datacenterIDShift (datacenterID w)
       OR push_bit workerIDShift (workerID w)
       OR sequence w"

text \<open>
  \<open>Next clk i w\<close> is one call on generator \<open>w\<close> with the clock at position \<open>i\<close>. It gives
  the returned pair as a sum (\<open>Inl\<close> the error), the position of the clock after the call
  and the generator after the call; \<open>None\<close> when the call does not return.
\<close>

definition Next :: "clock \<Rightarrow> nat \<Rightarrow> worker \<Rightarrow> ((error + int64) \<times> nat \<times> worker) option" where
  "Next clk i w =
     (let timestamp = now_ms clk i in
      if timestamp <s lastTimestamp w
      then Some (Inl (ClockMovedBackwards (lastTimestamp w - timestamp)), Suc i, w)
      else if timestamp = lastTimestamp w
      then
        (let w1 = w\<lparr>sequence := (sequence w + 1) AND word_of_int sequenceMask\<rparr> in
         if sequence w1 = 0
         then (case tilNextMillis clk (Suc i) (lastTimestamp w1) of
                 None \<Rightarrow> None
               | Some (timestamp', j) \<Rightarrow>
                   (let w2 = w1\<lparr>lastTimestamp := timestamp'\<rparr>
                    in Some (Inr (compose timestamp' w2), j, w2)))
         else (let w2 = w1\<lparr>lastTimestamp := timestamp\<rparr>
               in Some (Inr (compose timestamp w2), Suc i, w2)))
      else
        (let w1 = w\<lparr>sequence := 0\<rparr>;
             w2 = w1\<lparr>lastTimestamp := timestamp\<rparr>
         in Some (Inr (compose timestamp w2), Suc i, w2)))"

text \<open>
  A sequence of calls on one generator. \<open>calls clk n i w\<close> makes \<open>n\<close> calls of \<open>Next\<close>,
  one after the other, starting with the clock at position \<open>i\<close>. Each call is recorded with
  the position of the clock when it started, the generator before it, what it returned and
  the generator as it left it. The result is \<open>None\<close> when one of the calls does not return.
\<close>

record call =
  at :: nat
  before :: worker
  returned :: "error + int64"
  after :: worker

fun calls :: "clock \<Rightarrow> nat \<Rightarrow> nat \<Rightarrow> worker \<Rightarrow> call list option" where
  "calls clk 0 i w = Some []"
| "calls clk (Suc n) i w =
     (case Next clk i w of
        None \<Rightarrow> None
      | Some (r, j, w') \<Rightarrow>
          (case calls clk n j w' of
             None \<Rightarrow> None
           | Some cs \<Rightarrow> Some (\<lparr>at = i, before = w, returned = r, after = w'\<rparr> # cs)))"

text \<open>The identifiers that a sequence of calls returned, in the order of the calls.\<close>

fun ids :: "call list \<Rightarrow> int64 list" where
  "ids [] = []"
| "ids (c # cs) = (case returned c of Inl e \<Rightarrow> ids cs | Inr x \<Rightarrow> x # ids cs)"

subsection \<open>Calls that overlap\<close>

text \<open>
  \<open>Next\<close> reads the clock and compares the reading with \<open>lastTimestamp\<close> (lines 69 to
  72) before it takes the lock (line 73). A call that overlaps another therefore runs in two
  steps, with the generator possibly assigned by the other call in between.
  \<open>Next_check\<close> is the first step, on the generator as it is at the time of the reading: it
  gives the clock error or the reading, and the position of the clock after it.
  \<open>Next_locked\<close> is lines 73 to 89, on the generator as it is when the lock is taken, with
  the reading of the first step in \<open>timestamp\<close>.
\<close>

definition Next_check :: "clock \<Rightarrow> nat \<Rightarrow> worker \<Rightarrow> (error + int64) \<times> nat" where
  "Next_check clk i w =
     (let timestamp = now_ms clk i in
      if timestamp <s lastTimestamp w
      then (Inl (ClockMovedBackwards (lastTimestamp w - timestamp)), Suc i)
      else (Inr timestamp, Suc i))"

definition Next_locked :: "clock \<Rightarrow> nat \<Rightarrow> int64 \<Rightarrow> worker \<Rightarrow> (int64 \<times> nat \<times> worker) option" where
  "Next_locked clk i timestamp w =
     (if timestamp = lastTimestamp w
      then
        (let w1 = w\<lparr>sequence := (sequence w + 1) AND word_of_int sequenceMask\<rparr> in
         if sequence w1 = 0
         then (case tilNextMillis clk i (lastTimestamp w1) of
                 None \<Rightarrow> None
               | Some (timestamp', j) \<Rightarrow>
                   (let w2 = w1\<lparr>lastTimestamp := timestamp'\<rparr>
                    in Some (compose timestamp' w2, j, w2)))
         else (let w2 = w1\<lparr>lastTimestamp := timestamp\<rparr>
               in Some (compose timestamp w2, i, w2)))
      else
        (let w1 = w\<lparr>sequence := 0\<rparr>;
             w2 = w1\<lparr>lastTimestamp := timestamp\<rparr>
         in Some (compose timestamp w2, i, w2)))"

text \<open>
  \<open>finish clk a k r w\<close> completes a call that read the clock at position \<open>a\<close> with outcome
  \<open>r\<close> of its first step: an error is returned at once, a reading takes the lock on the
  generator \<open>w\<close> with the clock at position \<open>k\<close>. It gives the record of the call and the
  position of the clock after it.
\<close>

definition finish :: "clock \<Rightarrow> nat \<Rightarrow> nat \<Rightarrow> error + int64 \<Rightarrow> worker \<Rightarrow> (call \<times> nat) option" where
  "finish clk a k r w =
     (case r of
        Inl e \<Rightarrow> Some (\<lparr>at = a, before = w, returned = Inl e, after = w\<rparr>, k)
      | Inr timestamp \<Rightarrow>
          (case Next_locked clk k timestamp w of
             None \<Rightarrow> None
           | Some (x, k', w') \<Rightarrow>
               Some (\<lparr>at = a, before = w, returned = Inr x, after = w'\<rparr>, k')))"

text \<open>
  Two calls from two goroutines that overlap: both read the clock and pass line 70 on the
  generator \<open>w\<close>, the first at position \<open>i\<close>, before either has assigned it; then the first
  runs its locked lines, then the second, on the generator as the first left it. The records
  are in the order in which the calls leave the lock.
\<close>

definition overlapping :: "clock \<Rightarrow> nat \<Rightarrow> worker \<Rightarrow> call list option" where
  "overlapping clk i w =
     (case Next_check clk i w of (r1, j) \<Rightarrow>
      case Next_check clk j w of (r2, k) \<Rightarrow>
        (case finish clk i k r1 w of
           None \<Rightarrow> None
         | Some (c1, k1) \<Rightarrow>
             (case finish clk j k1 r2 (after c1) of
                None \<Rightarrow> None
              | Some (c2, k2) \<Rightarrow> Some [c1, c2])))"

subsection \<open>Decoding\<close>

text \<open>
  The package has no decoder. These are the readers of the four fields that the statements
  about identifiers use: the inverse shifts of \<open>Next\<close>, with the masks of the field widths;
  the timestamp field is read with Go's arithmetic right shift.
\<close>

definition decode_sequence :: "int64 \<Rightarrow> int64" where
  "decode_sequence x = x AND word_of_int sequenceMask"

definition decode_worker :: "int64 \<Rightarrow> int64" where
  "decode_worker x = drop_bit workerIDShift x AND word_of_int maxWorkerID"

definition decode_datacenter :: "int64 \<Rightarrow> int64" where
  "decode_datacenter x = drop_bit datacenterIDShift x AND word_of_int maxDatacenterID"

definition decode_timestamp :: "int64 \<Rightarrow> int64" where
  "decode_timestamp x = signed_drop_bit timestampLeftShift x"

subsection \<open>Predicates used in the statements\<close>

text \<open>
  \<open>spun clk i l y\<close> describes a finished wait: starting at position \<open>i\<close>, the readings up
  to the last one were not after \<open>l\<close>, the last one is, and \<open>y\<close> holds that reading and the
  position after it.
\<close>

definition spun :: "clock \<Rightarrow> nat \<Rightarrow> int64 \<Rightarrow> int64 \<times> nat \<Rightarrow> bool" where
  "spun clk i l y \<longleftrightarrow>
     i < snd y \<and> fst y = now_ms clk (snd y - 1) \<and> l <s fst y \<and>
     (\<forall>k. i \<le> k \<and> k < snd y - 1 \<longrightarrow> now_ms clk k \<le>s l)"

text \<open>
  The generators that the package can build have identity fields of five bits
  (\<open>NewWorker\<close> checks them, \<open>DefaultWorker\<close> has zeros), and a sequence of twelve bits
  once \<open>Next\<close> has assigned it. The comparisons are unsigned: a value that passes is not
  negative as an \<open>int64\<close>.
\<close>

definition valid_ids :: "worker \<Rightarrow> bool" where
  "valid_ids w \<longleftrightarrow>
     workerID w \<le> word_of_int maxWorkerID \<and> datacenterID w \<le> word_of_int maxDatacenterID"

definition valid_seq :: "worker \<Rightarrow> bool" where
  "valid_seq w \<longleftrightarrow> sequence w \<le> word_of_int sequenceMask"

text \<open>
  The place of a generator in the order of its (timestamp, sequence) pairs: the timestamp
  counts first, the sequence within it.
\<close>

definition rank :: "worker \<Rightarrow> int" where
  "rank w = sint (lastTimestamp w) * 4096 + uint (sequence w)"

text \<open>
  The distance of a timestamp from \<open>twepoch\<close> fits the timestamp field when it fits the
  41 bits of the field, read with a sign: then the shift by 22 bits does not overflow an
  \<open>int64\<close>. A timestamp is within the lifetime of the scheme when it is before
  \<open>twepoch + 2^41\<close>, the first millisecond at which the field overflows.
\<close>

definition delta_fits :: "int64 \<Rightarrow> bool" where
  "delta_fits t \<longleftrightarrow> - (2 ^ 41) \<le> sint t - twepoch \<and> sint t - twepoch < 2 ^ 41"

definition in_lifetime :: "int64 \<Rightarrow> bool" where
  "in_lifetime t \<longleftrightarrow> sint t < twepoch + 2 ^ 41"

text \<open>
  What holds of every generator of the package, \<open>DefaultWorker\<close> or built by \<open>NewWorker\<close>,
  before and after any calls of \<open>Next\<close>: the identity fields and the sequence are in their
  ranges and \<open>lastTimestamp\<close>, zero at first and a reading of the clock that was not before
  it later, is not negative.
\<close>

definition wellformed :: "worker \<Rightarrow> bool" where
  "wellformed w \<longleftrightarrow> valid_ids w \<and> valid_seq w \<and> 0 \<le>s lastTimestamp w"

text \<open>
  The values that a reading in milliseconds can take: an \<open>int64\<close> number of nanoseconds
  divided by \<open>1e6\<close>. Zero, the initial \<open>lastTimestamp\<close>, is one of them.
\<close>

definition clock_range :: "int64 \<Rightarrow> bool" where
  "clock_range t \<longleftrightarrow> - 9223372036854 \<le> sint t \<and> sint t \<le> 9223372036854"

text \<open>The calls of a sequence that returned an identifier.\<close>

definition issued :: "call list \<Rightarrow> call list" where
  "issued cs = filter (\<lambda>c. \<not> isl (returned c)) cs"

subsection \<open>Clocks for the examples\<close>

text \<open>
  \<open>readings xs x\<close> is the clock whose first readings, in nanoseconds, are the elements of
  \<open>xs\<close> and whose every later reading is \<open>x\<close>.
\<close>

definition readings :: "int64 list \<Rightarrow> int64 \<Rightarrow> clock" where
  "readings xs x i = (if i < length xs then xs ! i else x)"

section \<open>Facts about the constants\<close>

lemma maxWorkerID_eq: "maxWorkerID = 31"
  by (simp add: maxWorkerID_def workerIDBits_def mask_eq_exp_minus_1)

lemma maxDatacenterID_eq: "maxDatacenterID = 31"
  by (simp add: maxDatacenterID_def datacenterIDBits_def mask_eq_exp_minus_1)

lemma sequenceMask_eq: "sequenceMask = 4095"
  by (simp add: sequenceMask_def sequenceBits_def mask_eq_exp_minus_1)

lemma shifts_eq:
  "workerIDShift = 12" "datacenterIDShift = 17" "timestampLeftShift = 22"
  by (simp_all add: workerIDShift_def datacenterIDShift_def timestampLeftShift_def
      sequenceBits_def workerIDBits_def datacenterIDBits_def)

section \<open>The wait for the next millisecond\<close>

lemma tilNextMillis_Some:
  assumes "tilNextMillis clk i l = Some y"
  shows "spun clk i l y"
proof (rule tilNextMillis.raw_induct[where P = spun, OF _ assms])
  fix f clk i l y
  assume IH: "\<And>c i l y. f c i l = Some y \<Longrightarrow> spun c i l y"
    and eq: "(let timestamp = now_ms clk i
              in if timestamp \<le>s l then f clk (Suc i) l else Some (timestamp, Suc i)) = Some y"
  show "spun clk i l y"
  proof (cases "now_ms clk i \<le>s l")
    case True
    with eq have "f clk (Suc i) l = Some y" by (simp add: Let_def)
    from IH[OF this] have ih: "Suc i < snd y" "fst y = now_ms clk (snd y - 1)" "l <s fst y"
      "\<forall>k. Suc i \<le> k \<and> k < snd y - 1 \<longrightarrow> now_ms clk k \<le>s l" by (auto simp: spun_def)
    have "now_ms clk k \<le>s l" if "i \<le> k" "k < snd y - 1" for k
    proof (cases "k = i")
      case True then show ?thesis using \<open>now_ms clk i \<le>s l\<close> by simp
    next
      case False then show ?thesis using that ih(4) by auto
    qed
    with ih show ?thesis by (auto simp: spun_def)
  next
    case False
    with eq have "y = (now_ms clk i, Suc i)" by (simp add: Let_def)
    with False show ?thesis by (auto simp: spun_def signed.not_le)
  qed
qed

lemma tilNextMillis_returns:
  assumes "l <s now_ms clk (i + d)"
  shows "\<exists>y. tilNextMillis clk i l = Some y"
  using assms
proof (induction d arbitrary: i)
  case 0
  then show ?case by (subst tilNextMillis.simps) (simp add: Let_def signed.not_le[symmetric])
next
  case (Suc d)
  from Suc.prems have "l <s now_ms clk (Suc i + d)" by simp
  from Suc.IH[OF this] obtain y where "tilNextMillis clk (Suc i) l = Some y" by blast
  then show ?case by (subst tilNextMillis.simps) (simp add: Let_def)
qed

lemma tilNextMillis_None:
  assumes "\<forall>k\<ge>i. now_ms clk k \<le>s l"
  shows "tilNextMillis clk i l = None"
proof (rule ccontr)
  assume "tilNextMillis clk i l \<noteq> None"
  then obtain y where y: "tilNextMillis clk i l = Some y" by auto
  from tilNextMillis_Some[OF y] have "i < snd y" "l <s now_ms clk (snd y - 1)" by (auto simp: spun_def)
  moreover have "now_ms clk (snd y - 1) \<le>s l" using assms \<open>i < snd y\<close> by auto
  ultimately show False by (simp add: signed.not_le[symmetric])
qed

section \<open>The bit fields of an identifier\<close>

lemma bit_uint_less:
  fixes x :: int64
  assumes "uint x < 2 ^ k" "bit x n"
  shows "n < k"
proof -
  from assms(1) have "x AND mask k = x" by (rule mask_eq_iff[THEN iffD2])
  then have "bit x n = bit (x AND mask k) n" by (rule arg_cong[where f = "\<lambda>y. bit y n", symmetric])
  with assms(2) have "bit (x AND mask k) n" by blast
  then show ?thesis by (simp add: bit_and_iff bit_mask_iff)
qed

lemma bit_le_31: "(x :: int64) \<le> 31 \<Longrightarrow> bit x n \<Longrightarrow> n < 5"
  using bit_uint_less[of x 5 n] by (simp add: word_le_def)

lemma bit_le_4095: "(x :: int64) \<le> 4095 \<Longrightarrow> bit x n \<Longrightarrow> n < 12"
  using bit_uint_less[of x 12 n] by (simp add: word_le_def)

lemma valid_bits:
  assumes "valid_ids w"
  shows "bit (workerID w) k \<Longrightarrow> k < 5" "bit (datacenterID w) k \<Longrightarrow> k < 5"
  using assms by (auto simp: valid_ids_def maxWorkerID_eq maxDatacenterID_eq dest: bit_le_31)

lemma valid_seq_bits:
  assumes "valid_seq w"
  shows "bit (sequence w) k \<Longrightarrow> k < 12"
  using assms by (auto simp: valid_seq_def sequenceMask_eq dest: bit_le_4095)

lemma mask_numerals: "(31 :: int64) = mask 5" "(4095 :: int64) = mask 12"
  by (simp_all add: mask_eq_exp_minus_1)

lemma decode_worker_compose:
  assumes "valid_ids w" "valid_seq w"
  shows "decode_worker (compose ts w) = workerID w"
proof (rule bit_eqI)
  fix n
  assume "possible_bit TYPE(int64) n"
  show "bit (decode_worker (compose ts w)) n = bit (workerID w) n"
    unfolding decode_worker_def compose_def shifts_eq maxWorkerID_eq
    by (auto simp: mask_numerals bit_simps dest: valid_bits[OF assms(1)] valid_seq_bits[OF assms(2)])
qed

lemma decode_datacenter_compose:
  assumes "valid_ids w" "valid_seq w"
  shows "decode_datacenter (compose ts w) = datacenterID w"
proof (rule bit_eqI)
  fix n
  assume "possible_bit TYPE(int64) n"
  show "bit (decode_datacenter (compose ts w)) n = bit (datacenterID w) n"
    unfolding decode_datacenter_def compose_def shifts_eq maxDatacenterID_eq
    by (auto simp: mask_numerals bit_simps dest: valid_bits[OF assms(1)] valid_seq_bits[OF assms(2)])
qed

lemma decode_sequence_compose:
  assumes "valid_ids w" "valid_seq w"
  shows "decode_sequence (compose ts w) = sequence w"
proof (rule bit_eqI)
  fix n
  assume "possible_bit TYPE(int64) n"
  show "bit (decode_sequence (compose ts w)) n = bit (sequence w) n"
    unfolding decode_sequence_def compose_def shifts_eq sequenceMask_eq
    by (auto simp: mask_numerals bit_simps dest: valid_bits[OF assms(1)] valid_seq_bits[OF assms(2)])
qed

lemma compose_as_sum:
  assumes "valid_ids w" "valid_seq w"
  shows "compose ts w =
           push_bit 22 (ts - word_of_int twepoch)
           + (push_bit 17 (datacenterID w) OR push_bit 12 (workerID w)) + sequence w"
proof -
  let ?d = "push_bit 22 (ts - word_of_int twepoch) :: int64"
  let ?m = "push_bit 17 (datacenterID w) OR push_bit 12 (workerID w)"
  have 1: "?d + ?m = ?d OR ?m"
    by (rule disjunctive_add) (auto simp: bit_simps dest: valid_bits[OF assms(1)])
  have 2: "(?d OR ?m) + sequence w = (?d OR ?m) OR sequence w"
    by (rule disjunctive_add) (auto simp: bit_simps dest: valid_bits[OF assms(1)] valid_seq_bits[OF assms(2)])
  show ?thesis unfolding 1 2 by (simp add: compose_def shifts_eq or.assoc)
qed

lemma mid_bound:
  assumes "valid_ids w"
  shows "uint (push_bit 17 (datacenterID w) OR push_bit 12 (workerID w)) < 2 ^ 22 - 4095"
proof -
  let ?m = "push_bit 17 (datacenterID w) OR push_bit 12 (workerID w)"
  have "?m AND mask 22 = ?m"
    by (rule bit_eqI) (auto simp: bit_simps dest: valid_bits[OF assms(1)])
  then have a: "uint ?m < 2 ^ 22" by (rule mask_eq_iff[THEN iffD1])
  have "?m AND mask 12 = 0"
    by (rule bit_eqI) (auto simp: bit_simps dest: valid_bits[OF assms(1)])
  then have "2 ^ 12 dvd uint ?m" by (rule and_mask_dvd[THEN iffD2])
  then obtain q where q: "uint ?m = 4096 * q" by (auto elim: dvdE)
  with a have "q < 1024" by simp
  then have "q \<le> 1023" by simp
  with q show ?thesis by simp
qed

lemma id_range:
  fixes d m s :: int
  assumes "- (2 ^ 41) \<le> d" "d < 2 ^ 41" "0 \<le> m" "m < 4190209" "0 \<le> s" "s \<le> 4095"
  shows "- (2 ^ 63) \<le> d * 2 ^ 22 + m + s \<and> d * 2 ^ 22 + m + s < 2 ^ 63"
  using assms by simp

lemma sint_compose:
  assumes "valid_ids w" "valid_seq w"
    and "- (2 ^ 41) \<le> sint ts - twepoch" "sint ts - twepoch < 2 ^ 41"
  shows "sint (compose ts w) =
           (sint ts - twepoch) * 2 ^ 22
           + uint (push_bit 17 (datacenterID w) OR push_bit 12 (workerID w)) + uint (sequence w)"
proof -
  let ?m = "push_bit 17 (datacenterID w) OR push_bit 12 (workerID w)"
  let ?k = "(sint ts - twepoch) * 2 ^ 22 + uint ?m + uint (sequence w)"
  have eq: "compose ts w = word_of_int ?k"
    unfolding compose_as_sum[OF assms(1,2)] by (simp add: push_bit_eq_mult)
  have "sint (word_of_int ?k :: int64) = signed_take_bit 63 ?k"
    by (simp only: signed_of_int) simp
  then have "sint (compose ts w) = signed_take_bit 63 ?k" by (simp only: eq)
  moreover have "signed_take_bit 63 ?k = ?k"
  proof -
    have s: "0 \<le> uint (sequence w)" "uint (sequence w) \<le> 4095"
      using assms(2) by (simp_all add: valid_seq_def sequenceMask_eq word_le_def)
    have m: "0 \<le> uint ?m" "uint ?m < 4190209"
      using mid_bound[OF assms(1)] by simp_all
    from id_range[OF assms(3,4) m s] show ?thesis
      by (intro signed_take_bit_int_eq_self) simp_all
  qed
  ultimately show ?thesis by simp
qed

section \<open>The four paths through Next\<close>

lemma Next_regress:
  assumes "now_ms clk i <s lastTimestamp w"
  shows "Next clk i w =
           Some (Inl (ClockMovedBackwards (lastTimestamp w - now_ms clk i)), Suc i, w)"
  using assms by (simp add: Next_def Let_def)

lemma Next_fresh:
  assumes "lastTimestamp w <s now_ms clk i"
  shows "Next clk i w =
           Some (Inr (compose (now_ms clk i) (w\<lparr>sequence := 0, lastTimestamp := now_ms clk i\<rparr>)),
                 Suc i, w\<lparr>sequence := 0, lastTimestamp := now_ms clk i\<rparr>)"
proof -
  from assms have "\<not> now_ms clk i <s lastTimestamp w" "now_ms clk i \<noteq> lastTimestamp w"
    by (auto simp: signed.not_less signed.less_imp_le)
  then show ?thesis by (simp add: Next_def Let_def)
qed

lemma Next_same:
  assumes "now_ms clk i = lastTimestamp w"
    and "(sequence w + 1) AND word_of_int sequenceMask \<noteq> 0"
  shows "Next clk i w =
           Some (Inr (compose (now_ms clk i)
                        (w\<lparr>sequence := (sequence w + 1) AND word_of_int sequenceMask\<rparr>)),
                 Suc i, w\<lparr>sequence := (sequence w + 1) AND word_of_int sequenceMask\<rparr>)"
  using assms by (simp add: Next_def Let_def)

lemma Next_wrap:
  assumes "now_ms clk i = lastTimestamp w"
    and "(sequence w + 1) AND word_of_int sequenceMask = 0"
  shows "Next clk i w =
           (case tilNextMillis clk (Suc i) (lastTimestamp w) of
              None \<Rightarrow> None
            | Some (t, j) \<Rightarrow>
                Some (Inr (compose t (w\<lparr>sequence := 0, lastTimestamp := t\<rparr>)),
                      j, w\<lparr>sequence := 0, lastTimestamp := t\<rparr>))"
  using assms by (simp add: Next_def Let_def split: option.splits)

lemma Next_Inl:
  assumes "Next clk i w = Some (Inl e, j, w')"
  shows "now_ms clk i <s lastTimestamp w"
  using assms by (auto simp: Next_def Let_def split: if_splits option.splits)

lemma Next_Inr:
  assumes "Next clk i w = Some (Inr x, j, w')"
  shows "lastTimestamp w \<le>s now_ms clk i"
    and "x = compose (lastTimestamp w') w'"
    and "w' = w\<lparr>sequence := sequence w', lastTimestamp := lastTimestamp w'\<rparr>"
    and "i < j" and "lastTimestamp w' = now_ms clk (j - 1)"
    and "lastTimestamp w <s now_ms clk i \<Longrightarrow> sequence w' = 0 \<and> j = Suc i"
    and "now_ms clk i = lastTimestamp w \<Longrightarrow>
           sequence w' = (sequence w + 1) AND word_of_int sequenceMask"
    and "now_ms clk i = lastTimestamp w \<Longrightarrow> sequence w' \<noteq> 0 \<Longrightarrow> j = Suc i"
    and "now_ms clk i = lastTimestamp w \<Longrightarrow> sequence w' = 0 \<Longrightarrow>
           spun clk (Suc i) (lastTimestamp w) (lastTimestamp w', j)"
proof -
  consider (regress) "now_ms clk i <s lastTimestamp w"
    | (fresh) "lastTimestamp w <s now_ms clk i"
    | (same) "now_ms clk i = lastTimestamp w" "(sequence w + 1) AND word_of_int sequenceMask \<noteq> 0"
    | (wrap) "now_ms clk i = lastTimestamp w" "(sequence w + 1) AND word_of_int sequenceMask = 0"
    using signed.less_linear by blast
  then have "lastTimestamp w \<le>s now_ms clk i \<and> x = compose (lastTimestamp w') w'
    \<and> w' = w\<lparr>sequence := sequence w', lastTimestamp := lastTimestamp w'\<rparr>
    \<and> i < j \<and> lastTimestamp w' = now_ms clk (j - 1)
    \<and> (lastTimestamp w <s now_ms clk i \<longrightarrow> sequence w' = 0 \<and> j = Suc i)
    \<and> (now_ms clk i = lastTimestamp w \<longrightarrow>
           sequence w' = (sequence w + 1) AND word_of_int sequenceMask)
    \<and> (now_ms clk i = lastTimestamp w \<longrightarrow> sequence w' \<noteq> 0 \<longrightarrow> j = Suc i)
    \<and> (now_ms clk i = lastTimestamp w \<longrightarrow> sequence w' = 0 \<longrightarrow>
           spun clk (Suc i) (lastTimestamp w) (lastTimestamp w', j))"
  proof cases
    case regress
    with assms show ?thesis by (simp add: Next_regress)
  next
    case fresh
    with assms show ?thesis by (auto simp: Next_fresh signed.less_imp_le)
  next
    case same
    with assms show ?thesis by (auto simp: Next_same)
  next
    case wrap
    from assms obtain t where t: "tilNextMillis clk (Suc i) (lastTimestamp w) = Some (t, j)"
      and w': "w' = w\<lparr>sequence := 0, lastTimestamp := t\<rparr>"
      and x: "x = compose t w'"
      by (auto simp: Next_wrap[OF wrap] split: option.splits)
    from tilNextMillis_Some[OF t] have sp: "spun clk (Suc i) (lastTimestamp w) (t, j)" .
    then have "Suc i < j" "t = now_ms clk (j - 1)" by (auto simp: spun_def)
    with wrap w' x sp show ?thesis by auto
  qed
  then show "lastTimestamp w \<le>s now_ms clk i"
    and "x = compose (lastTimestamp w') w'"
    and "w' = w\<lparr>sequence := sequence w', lastTimestamp := lastTimestamp w'\<rparr>"
    and "i < j" and "lastTimestamp w' = now_ms clk (j - 1)"
    and "lastTimestamp w <s now_ms clk i \<Longrightarrow> sequence w' = 0 \<and> j = Suc i"
    and "now_ms clk i = lastTimestamp w \<Longrightarrow>
           sequence w' = (sequence w + 1) AND word_of_int sequenceMask"
    and "now_ms clk i = lastTimestamp w \<Longrightarrow> sequence w' \<noteq> 0 \<Longrightarrow> j = Suc i"
    and "now_ms clk i = lastTimestamp w \<Longrightarrow> sequence w' = 0 \<Longrightarrow>
           spun clk (Suc i) (lastTimestamp w) (lastTimestamp w', j)"
    by blast+
qed

section \<open>What a call preserves and establishes\<close>

lemma Next_unchanged_ids:
  assumes "w' = w\<lparr>sequence := s, lastTimestamp := t\<rparr>"
  shows "workerID w' = workerID w" "datacenterID w' = datacenterID w"
  using assms by simp_all

lemma Next_valid_seq:
  assumes "Next clk i w = Some (Inr x, j, w')"
  shows "valid_seq w'"
proof -
  from Next_Inr(1)[OF assms] consider "lastTimestamp w <s now_ms clk i" | "now_ms clk i = lastTimestamp w"
    by (auto simp: signed.le_less)
  then show ?thesis
  proof cases
    case 1
    with Next_Inr(6)[OF assms] show ?thesis by (simp add: valid_seq_def sequenceMask_eq)
  next
    case 2
    with Next_Inr(7)[OF assms] show ?thesis by (simp add: valid_seq_def word_and_le1)
  qed
qed

lemma Next_valid_ids:
  assumes "Next clk i w = Some (r, j, w')" "valid_ids w"
  shows "valid_ids w'"
proof (cases r)
  case (Inl e)
  with assms(1) have "now_ms clk i <s lastTimestamp w" by (auto dest: Next_Inl)
  with assms show ?thesis by (simp add: Next_regress)
next
  case (Inr x)
  with assms(1) have "w' = w\<lparr>sequence := sequence w', lastTimestamp := lastTimestamp w'\<rparr>"
    by (auto dest: Next_Inr(3))
  from Next_unchanged_ids[OF this] assms(2) show ?thesis by (simp add: valid_ids_def)
qed

lemma NewWorker_valid:
  assumes "NewWorker wid dcid = Inr w"
  shows "valid_ids w" "valid_seq w" "workerID w = ucast wid" "datacenterID w = ucast dcid"
proof -
  from assms have le: "uint wid \<le> 31" "uint dcid \<le> 31"
    and w: "w = \<lparr>workerID = ucast wid, datacenterID = ucast dcid, sequence = 0, lastTimestamp = 0\<rparr>"
    by (auto simp: NewWorker_def maxWorkerID_eq maxDatacenterID_eq split: if_splits)
  have "uint wid < 2 ^ 64" "uint dcid < 2 ^ 64"
    using uint_lt2p[of wid] uint_lt2p[of dcid] by simp_all
  then have "uint (ucast wid :: int64) = uint wid" "uint (ucast dcid :: int64) = uint dcid"
    by (simp_all add: unsigned_ucast_eq take_bit_int_eq_self)
  with le w show "valid_ids w"
    by (simp add: valid_ids_def maxWorkerID_eq maxDatacenterID_eq word_le_def)
  from w show "valid_seq w" "workerID w = ucast wid" "datacenterID w = ucast dcid"
    by (simp_all add: valid_seq_def)
qed

lemma DefaultWorker_valid: "valid_ids DefaultWorker" "valid_seq DefaultWorker"
  by (simp_all add: DefaultWorker_def valid_ids_def valid_seq_def)

lemma compose_ids_inj:
  assumes "valid_ids a" "valid_seq a" "valid_ids b" "valid_seq b"
    and "compose t a = compose t' b"
  shows "workerID a = workerID b \<and> datacenterID a = datacenterID b"
proof -
  have "workerID a = decode_worker (compose t a)" "datacenterID a = decode_datacenter (compose t a)"
    using assms(1,2) by (simp_all add: decode_worker_compose decode_datacenter_compose)
  moreover
  have "workerID b = decode_worker (compose t' b)" "datacenterID b = decode_datacenter (compose t' b)"
    using assms(3,4) by (simp_all add: decode_worker_compose decode_datacenter_compose)
  ultimately show ?thesis using assms(5) by simp
qed

lemma Next_keeps_ids:
  assumes "Next clk i w = Some (r, j, w')"
  shows "workerID w' = workerID w" "datacenterID w' = datacenterID w"
proof -
  have "workerID w' = workerID w \<and> datacenterID w' = datacenterID w"
  proof (cases r)
    case (Inl e)
    with assms have "now_ms clk i <s lastTimestamp w" by (auto dest: Next_Inl)
    with assms show ?thesis by (simp add: Next_regress)
  next
    case (Inr x)
    with assms have "w' = w\<lparr>sequence := sequence w', lastTimestamp := lastTimestamp w'\<rparr>"
      by (auto dest: Next_Inr(3))
    from Next_unchanged_ids[OF this] show ?thesis by simp
  qed
  then show "workerID w' = workerID w" "datacenterID w' = datacenterID w" by simp_all
qed

section \<open>The order of (timestamp, sequence) pairs\<close>

lemma seq_step_uint:
  fixes s :: int64
  assumes "s \<le> 4095" "(s + 1) AND 4095 \<noteq> 0"
  shows "uint ((s + 1) AND 4095) = uint s + 1"
proof -
  have u: "uint s \<le> 4095" using assms(1) by (simp add: word_le_def)
  have u0: "0 \<le> uint s" by simp
  have "uint s + uint (1 :: int64) < 2 ^ LENGTH(64)" using u by simp
  then have "uint (s + 1) = uint s + uint (1 :: int64)" by (rule uint_add_lem[THEN iffD1])
  then have u1: "uint (s + 1) = uint s + 1" by simp
  have "(s + 1) AND mask 12 = word_of_int (uint (s + 1) mod 2 ^ 12)"
    by (rule and_mask_mod_2p)
  then have e: "(s + 1) AND 4095 = word_of_int ((uint s + 1) mod 4096)"
    by (simp add: u1 mask_numerals)
  show ?thesis
  proof (cases "uint s = 4095")
    case True
    with e have "(s + 1) AND 4095 = 0" by simp
    with assms(2) show ?thesis by simp
  next
    case False
    with u u0 have "(uint s + 1) mod 4096 = uint s + 1" by simp
    with e have "(s + 1) AND 4095 = word_of_int (uint s + 1)" by simp
    then show ?thesis by (simp add: u1)
  qed
qed

lemma seq_step_mod:
  fixes s :: int64
  shows "uint ((s + 1) AND 4095) = (uint s + 1) mod 4096"
proof -
  have "(s + 1) AND mask 12 = word_of_int (uint (s + 1) mod 2 ^ 12)"
    by (rule and_mask_mod_2p)
  then have "uint ((s + 1) AND 4095) = take_bit 64 (uint (s + 1) mod 4096)"
    by (simp add: mask_numerals uint_word_of_int_eq)
  also have "\<dots> = uint (s + 1) mod 4096"
  proof (rule take_bit_int_eq_self)
    show "0 \<le> uint (s + 1) mod 4096" by simp
    have "uint (s + 1) mod 4096 < 4096" by simp
    then show "uint (s + 1) mod 4096 < 2 ^ 64" by simp
  qed
  also have "uint (s + 1) = (uint s + 1) mod 2 ^ 64"
    by (simp add: uint_word_ariths take_bit_eq_mod)
  also have "(uint s + 1) mod 2 ^ 64 mod 4096 = (uint s + 1) mod 4096"
    by (rule mod_mod_cancel) simp
  finally show ?thesis .
qed

lemma rank_less_by_timestamp:
  assumes "valid_seq w" "lastTimestamp w <s lastTimestamp w'" "sequence w' = 0"
  shows "rank w < rank w'"
proof -
  from assms(1) have "uint (sequence w) \<le> 4095"
    by (simp add: valid_seq_def sequenceMask_eq word_le_def)
  moreover from assms(2) have "sint (lastTimestamp w) + 1 \<le> sint (lastTimestamp w')"
    by (simp add: word_sless_alt)
  ultimately show ?thesis using assms(3) by (simp add: rank_def)
qed

lemma Next_rank:
  assumes "Next clk i w = Some (Inr x, j, w')" "valid_seq w"
  shows "rank w < rank w'"
proof -
  from Next_Inr(1)[OF assms(1)]
  consider (fresh) "lastTimestamp w <s now_ms clk i"
    | (same) "now_ms clk i = lastTimestamp w" "sequence w' \<noteq> 0"
    | (wrap) "now_ms clk i = lastTimestamp w" "sequence w' = 0"
    by (cases "sequence w' = 0") (auto simp: signed.le_less)
  then show ?thesis
  proof cases
    case fresh
    from Next_Inr(6)[OF assms(1) fresh] Next_Inr(5)[OF assms(1)]
    have "sequence w' = 0" "lastTimestamp w' = now_ms clk i" by simp_all
    with fresh assms(2) show ?thesis by (simp add: rank_less_by_timestamp)
  next
    case same
    from Next_Inr(8)[OF assms(1) same] Next_Inr(5)[OF assms(1)] same(1)
    have t: "lastTimestamp w' = lastTimestamp w" by simp
    from Next_Inr(7)[OF assms(1) same(1)]
    have s: "sequence w' = (sequence w + 1) AND 4095" by (simp add: sequenceMask_eq)
    from assms(2) have "sequence w \<le> 4095" by (simp add: valid_seq_def sequenceMask_eq)
    from seq_step_uint[OF this] same(2) s have "uint (sequence w') = uint (sequence w) + 1"
      by simp
    with t show ?thesis by (simp add: rank_def)
  next
    case wrap
    from Next_Inr(9)[OF assms(1) wrap] have "lastTimestamp w <s lastTimestamp w'"
      by (simp only: spun_def fst_conv)
    with wrap(2) assms(2) show ?thesis by (simp add: rank_less_by_timestamp)
  qed
qed

lemma Next_error_unchanged:
  assumes "Next clk i w = Some (Inl e, j, w')"
  shows "w' = w"
  using assms Next_regress[OF Next_Inl[OF assms]] by simp

section \<open>Sequences of calls\<close>

lemma calls_Suc:
  assumes "calls clk (Suc n) i w = Some cs"
  obtains r j w' cs' where "Next clk i w = Some (r, j, w')" "calls clk n j w' = Some cs'"
    "cs = \<lparr>at = i, before = w, returned = r, after = w'\<rparr> # cs'"
  using assms by (auto split: option.splits)

lemma calls_length: "calls clk n i w = Some cs \<Longrightarrow> length cs = n"
proof (induction n arbitrary: i w cs)
  case 0
  then show ?case by simp
next
  case (Suc n)
  from Suc.prems obtain r j w' cs' where "calls clk n j w' = Some cs'"
    "cs = \<lparr>at = i, before = w, returned = r, after = w'\<rparr> # cs'"
    by (rule calls_Suc)
  with Suc.IH show ?case by simp
qed

lemma calls_entry:
  "calls clk n i w = Some cs \<Longrightarrow> c \<in> set cs \<Longrightarrow>
     \<exists>j. Next clk (at c) (before c) = Some (returned c, j, after c)"
proof (induction n arbitrary: i w cs)
  case 0
  then show ?case by simp
next
  case (Suc n)
  from Suc.prems(1) obtain r j w' cs' where s: "Next clk i w = Some (r, j, w')"
    "calls clk n j w' = Some cs'" "cs = \<lparr>at = i, before = w, returned = r, after = w'\<rparr> # cs'"
    by (rule calls_Suc)
  show ?case
  proof (cases "c \<in> set cs'")
    case True
    with Suc.IH s(2) show ?thesis by blast
  next
    case False
    with Suc.prems(2) s(3) have "c = \<lparr>at = i, before = w, returned = r, after = w'\<rparr>" by simp
    with s(1) show ?thesis by simp
  qed
qed

lemma calls_ids:
  "calls clk n i w = Some cs \<Longrightarrow> valid_ids w \<Longrightarrow> c \<in> set cs \<Longrightarrow>
     valid_ids (after c) \<and> workerID (after c) = workerID w
     \<and> datacenterID (after c) = datacenterID w"
proof (induction n arbitrary: i w cs)
  case 0
  then show ?case by simp
next
  case (Suc n)
  from Suc.prems(1) obtain r j w' cs' where s: "Next clk i w = Some (r, j, w')"
    "calls clk n j w' = Some cs'" "cs = \<lparr>at = i, before = w, returned = r, after = w'\<rparr> # cs'"
    by (rule calls_Suc)
  from Next_keeps_ids[OF s(1)] Next_valid_ids[OF s(1) Suc.prems(2)]
  have w': "valid_ids w'" "workerID w' = workerID w" "datacenterID w' = datacenterID w" by simp_all
  show ?case
  proof (cases "c \<in> set cs'")
    case True
    with Suc.IH[OF s(2) w'(1)] w' show ?thesis by simp
  next
    case False
    with Suc.prems(3) s(3) have "c = \<lparr>at = i, before = w, returned = r, after = w'\<rparr>" by simp
    with w' show ?thesis by simp
  qed
qed

lemma issued_Cons:
  "issued (c # cs) = (if isl (returned c) then issued cs else c # issued cs)"
  by (simp add: issued_def)

lemma calls_rank:
  "calls clk n i w = Some cs \<Longrightarrow> valid_seq w \<Longrightarrow>
     (\<forall>c \<in> set (issued cs). rank w < rank (after c) \<and> valid_seq (after c))
     \<and> sorted_wrt (\<lambda>a b. rank (after a) < rank (after b)) (issued cs)"
proof (induction n arbitrary: i w cs)
  case 0
  then show ?case by (simp add: issued_def)
next
  case (Suc n)
  from Suc.prems(1) obtain r j w' cs' where s: "Next clk i w = Some (r, j, w')"
    "calls clk n j w' = Some cs'" "cs = \<lparr>at = i, before = w, returned = r, after = w'\<rparr> # cs'"
    by (rule calls_Suc)
  show ?case
  proof (cases r)
    case (Inl e)
    with s(1) have "w' = w" by (auto dest: Next_error_unchanged)
    with Suc.IH[OF s(2)] Suc.prems(2) s(3) Inl show ?thesis by (simp add: issued_Cons)
  next
    case (Inr x)
    with s(1) have n: "Next clk i w = Some (Inr x, j, w')" by simp
    from Next_rank[OF n Suc.prems(2)] Next_valid_seq[OF n]
    have w': "rank w < rank w'" "valid_seq w'" .
    from Suc.IH[OF s(2) w'(2)]
    have ih: "\<forall>c \<in> set (issued cs'). rank w' < rank (after c) \<and> valid_seq (after c)"
      "sorted_wrt (\<lambda>a b. rank (after a) < rank (after b)) (issued cs')" by simp_all
    from ih(1) w'(1) have "\<forall>c \<in> set (issued cs'). rank w < rank (after c)" by fastforce
    with ih w' s(3) Inr show ?thesis by (simp add: issued_Cons)
  qed
qed

lemma calls_issued_sorted:
  "calls clk n i w = Some cs \<Longrightarrow>
     (\<forall>c \<in> set (issued cs). valid_seq (after c))
     \<and> sorted_wrt (\<lambda>a b. rank (after a) < rank (after b)) (issued cs)"
proof (induction n arbitrary: i w cs)
  case 0
  then show ?case by (simp add: issued_def)
next
  case (Suc n)
  from Suc.prems(1) obtain r j w' cs' where s: "Next clk i w = Some (r, j, w')"
    "calls clk n j w' = Some cs'" "cs = \<lparr>at = i, before = w, returned = r, after = w'\<rparr> # cs'"
    by (rule calls_Suc)
  show ?case
  proof (cases r)
    case (Inl e)
    with Suc.IH[OF s(2)] s(3) show ?thesis by (simp add: issued_Cons)
  next
    case (Inr x)
    with s(1) have n: "Next clk i w = Some (Inr x, j, w')" by simp
    from calls_rank[OF s(2) Next_valid_seq[OF n]] Next_valid_seq[OF n] s(3) Inr
    show ?thesis by (simp add: issued_Cons)
  qed
qed

lemma sorted_wrt_int_gap:
  fixes f :: "'a \<Rightarrow> int"
  assumes "sorted_wrt (\<lambda>a b. f a < f b) xs"
  shows "k + d < length xs \<Longrightarrow> f (xs ! k) + int d \<le> f (xs ! (k + d))"
proof (induction d)
  case 0
  then show ?case by simp
next
  case (Suc d)
  then have "f (xs ! k) + int d \<le> f (xs ! (k + d))" by simp
  moreover have "f (xs ! (k + d)) < f (xs ! (k + Suc d))"
    using sorted_wrt_nth_less[OF assms, of "k + d" "k + Suc d"] Suc.prems by simp
  ultimately show ?case by simp
qed

lemma rank_gap_4096:
  assumes "valid_seq a" "valid_seq b" "rank a + 4096 \<le> rank b"
  shows "lastTimestamp a <s lastTimestamp b"
proof -
  from assms(1,2) have b: "uint (sequence a) \<le> 4095" "uint (sequence b) \<le> 4095"
    by (simp_all add: valid_seq_def sequenceMask_eq word_le_def)
  have n: "0 \<le> uint (sequence a)" "0 \<le> uint (sequence b)" by simp_all
  from assms(3) have "sint (lastTimestamp a) * 4096 + uint (sequence a) + 4096
      \<le> sint (lastTimestamp b) * 4096 + uint (sequence b)" by (simp add: rank_def)
  with b n have "sint (lastTimestamp a) < sint (lastTimestamp b)" by linarith
  then show ?thesis by (simp add: word_sless_alt)
qed

lemma later_timestamp_wins:
  fixes ta tb sa sb e :: int
  assumes "sa \<le> 4095" "sb \<le> 4095" "0 \<le> sa" "0 \<le> sb" "ta + 1 \<le> tb"
  shows "(ta - e) * 4194304 + sa < (tb - e) * 4194304 + sb"
proof -
  from assms(5) have "(ta - e) * 4194304 + 4194304 \<le> (tb - e) * 4194304" by simp
  with assms(1,4) show ?thesis by linarith
qed

lemma compose_order:
  assumes "valid_ids a" "valid_seq a" "valid_seq b"
    and "workerID b = workerID a" "datacenterID b = datacenterID a"
    and "delta_fits (lastTimestamp a)" "delta_fits (lastTimestamp b)"
    and "rank a < rank b"
  shows "compose (lastTimestamp a) a <s compose (lastTimestamp b) b"
proof -
  let ?m = "uint (push_bit 17 (datacenterID a) OR push_bit 12 (workerID a))"
  from assms(1,4,5) have vb: "valid_ids b" by (simp add: valid_ids_def)
  have ia: "sint (compose (lastTimestamp a) a) =
      (sint (lastTimestamp a) - twepoch) * 2 ^ 22 + ?m + uint (sequence a)"
    using assms(1,2,6) by (simp add: sint_compose delta_fits_def)
  have ib: "sint (compose (lastTimestamp b) b) =
      (sint (lastTimestamp b) - twepoch) * 2 ^ 22 + ?m + uint (sequence b)"
    using vb assms(3,4,5,7) by (simp add: sint_compose delta_fits_def)
  from assms(2,3) have b: "uint (sequence a) \<le> 4095" "uint (sequence b) \<le> 4095"
    by (simp_all add: valid_seq_def sequenceMask_eq word_le_def)
  have n: "0 \<le> uint (sequence a)" "0 \<le> uint (sequence b)" by simp_all
  from assms(8) have r: "sint (lastTimestamp a) * 4096 + uint (sequence a)
      < sint (lastTimestamp b) * 4096 + uint (sequence b)" by (simp add: rank_def)
  have "(sint (lastTimestamp a) - twepoch) * 4194304 + uint (sequence a)
      < (sint (lastTimestamp b) - twepoch) * 4194304 + uint (sequence b)"
  proof (cases "sint (lastTimestamp a) < sint (lastTimestamp b)")
    case True
    then have "sint (lastTimestamp a) + 1 \<le> sint (lastTimestamp b)" by simp
    with b n show ?thesis by (intro later_timestamp_wins)
  next
    case False
    with r b n have "sint (lastTimestamp a) = sint (lastTimestamp b)" by linarith
    with r show ?thesis by simp
  qed
  with ia ib show ?thesis by (simp add: word_sless_alt)
qed

lemma ids_issued:
  "calls clk n i w = Some cs \<Longrightarrow>
     ids cs = map (\<lambda>c. compose (lastTimestamp (after c)) (after c)) (issued cs)"
proof (induction n arbitrary: i w cs)
  case 0
  then show ?case by (simp add: issued_def)
next
  case (Suc n)
  from Suc.prems(1) obtain r j w' cs' where s: "Next clk i w = Some (r, j, w')"
    "calls clk n j w' = Some cs'" "cs = \<lparr>at = i, before = w, returned = r, after = w'\<rparr> # cs'"
    by (rule calls_Suc)
  show ?case
  proof (cases r)
    case (Inl e)
    with Suc.IH[OF s(2)] s(3) show ?thesis by (simp add: issued_Cons)
  next
    case (Inr x)
    with s(1) have "x = compose (lastTimestamp w') w'" by (auto dest: Next_Inr(2))
    with Suc.IH[OF s(2)] s(3) Inr show ?thesis by (simp add: issued_Cons)
  qed
qed

lemma issued_all:
  assumes "calls clk n i w = Some cs"
    and "\<forall>c \<in> set cs. lastTimestamp (before c) \<le>s now_ms clk (at c)"
  shows "issued cs = cs"
proof -
  have "\<not> isl (returned c)" if c: "c \<in> set cs" for c
  proof
    assume "isl (returned c)"
    then obtain e where e: "returned c = Inl e" by (cases "returned c") simp_all
    from calls_entry[OF assms(1) c] e obtain j
      where "Next clk (at c) (before c) = Some (Inl e, j, after c)" by auto
    then have "now_ms clk (at c) <s lastTimestamp (before c)" by (rule Next_Inl)
    with assms(2) c show False by (auto simp: signed.not_less[symmetric])
  qed
  then show ?thesis by (simp add: issued_def)
qed

section \<open>Many calls within one millisecond\<close>

lemma seq_no_wrap:
  fixes s :: int64
  assumes "uint s + 1 \<le> 4095"
  shows "(s + 1) AND 4095 = s + 1" "s + 1 \<noteq> 0" "uint (s + 1) = uint s + 1"
proof -
  have "uint s + uint (1 :: int64) < 2 ^ LENGTH(64)" using assms by simp
  then have "uint (s + 1) = uint s + uint (1 :: int64)" by (rule uint_add_lem[THEN iffD1])
  then show u1: "uint (s + 1) = uint s + 1" by simp
  have "0 \<le> uint s" by simp
  with u1 have "uint (s + 1) \<noteq> 0" by linarith
  then show "s + 1 \<noteq> 0" by (auto simp: word_uint_eq_iff)
  from u1 assms have "uint (s + 1) < 2 ^ 12" by simp
  then have "(s + 1) AND mask 12 = s + 1" by (rule mask_eq_iff[THEN iffD2])
  then show "(s + 1) AND 4095 = s + 1" by (simp add: mask_numerals)
qed

lemma calls_burst:
  assumes "\<And>k. i \<le> k \<Longrightarrow> k < i + n \<Longrightarrow> now_ms clk k = lastTimestamp w"
    and "uint (sequence w) + int n \<le> 4095"
  shows "\<exists>cs1. length cs1 = n \<and> (\<forall>c \<in> set cs1. \<not> isl (returned c)) \<and>
           calls clk (n + m) i w =
             map_option ((@) cs1)
               (calls clk m (i + n) (w\<lparr>sequence := sequence w + of_nat n\<rparr>))"
  using assms
proof (induction n arbitrary: i w)
  case 0
  have "calls clk m i w = map_option ((@) []) (calls clk m i w)"
    by (cases "calls clk m i w") simp_all
  then show ?case by simp
next
  case (Suc n)
  let ?w1 = "w\<lparr>sequence := sequence w + 1\<rparr>"
  from Suc.prems(2) have le: "uint (sequence w) + 1 \<le> 4095" by simp
  from Suc.prems(1)[of i] have now: "now_ms clk i = lastTimestamp w" by simp
  from seq_no_wrap(1,2)[OF le]
  have "(sequence w + 1) AND word_of_int sequenceMask = sequence w + 1"
    "(sequence w + 1) AND word_of_int sequenceMask \<noteq> 0"
    by (simp_all add: sequenceMask_eq)
  with Next_same[OF now] obtain x where nx: "Next clk i w = Some (Inr x, Suc i, ?w1)"
    by simp
  have "\<And>k. Suc i \<le> k \<Longrightarrow> k < Suc i + n \<Longrightarrow> now_ms clk k = lastTimestamp ?w1"
    using Suc.prems(1) by simp
  moreover have "uint (sequence ?w1) + int n \<le> 4095"
    using Suc.prems(2) seq_no_wrap(3)[OF le] by simp
  ultimately obtain cs1 where cs1: "length cs1 = n" "\<forall>c \<in> set cs1. \<not> isl (returned c)"
    "calls clk (n + m) (Suc i) ?w1 =
       map_option ((@) cs1)
         (calls clk m (Suc i + n) (?w1\<lparr>sequence := sequence ?w1 + of_nat n\<rparr>))"
    using Suc.IH[of "Suc i" ?w1] by blast
  let ?c = "\<lparr>at = i, before = w, returned = Inr x, after = ?w1\<rparr>"
  have w: "?w1\<lparr>sequence := sequence ?w1 + of_nat n\<rparr> = w\<lparr>sequence := sequence w + of_nat (Suc n)\<rparr>"
    by (simp add: add.assoc)
  have "calls clk (Suc n + m) i w =
          map_option ((@) (?c # cs1))
            (calls clk m (i + Suc n) (w\<lparr>sequence := sequence w + of_nat (Suc n)\<rparr>))"
    using nx cs1(3) unfolding w
    by (cases "calls clk m (Suc (i + n)) (w\<lparr>sequence := sequence w + of_nat (Suc n)\<rparr>)")
      simp_all
  moreover have "length (?c # cs1) = Suc n" "\<forall>c \<in> set (?c # cs1). \<not> isl (returned c)"
    using cs1(1,2) by simp_all
  ultimately show ?case by blast
qed

section \<open>The range of clock readings\<close>

lemma sdiv_million_range:
  fixes k :: int
  assumes "- (2 ^ 63) \<le> k" "k < 2 ^ 63"
  shows "- 9223372036854 \<le> k sdiv 1000000 \<and> k sdiv 1000000 \<le> 9223372036854"
proof -
  have "\<bar>k\<bar> \<le> 9223372036854775808" using assms by simp
  then have "\<bar>k\<bar> div 1000000 \<le> 9223372036854775808 div 1000000" by (rule zdiv_mono1) simp
  then have q: "\<bar>k\<bar> div 1000000 \<le> 9223372036854" by simp
  have p: "0 \<le> \<bar>k\<bar> div 1000000" by (simp add: pos_imp_zdiv_nonneg_iff)
  have "k sdiv 1000000 = sgn k * (\<bar>k\<bar> div 1000000)" by (simp add: signed_divide_int_def)
  moreover have "sgn k = 1 \<or> sgn k = 0 \<or> sgn k = - 1" by (auto simp: sgn_if)
  ultimately show ?thesis using p q by auto
qed

lemma now_ms_clock_range: "clock_range (now_ms clk i)"
proof -
  let ?q = "sint (clk i) sdiv 1000000"
  have "- (2 ^ 63) \<le> sint (clk i)" "sint (clk i) < 2 ^ 63"
    using sint_ge[of "clk i"] sint_lt[of "clk i"] by simp_all
  then have r: "- 9223372036854 \<le> ?q \<and> ?q \<le> 9223372036854" by (rule sdiv_million_range)
  then have "signed_take_bit 63 ?q = ?q" by (intro signed_take_bit_int_eq_self) simp_all
  then have "sint (word_of_int ?q :: int64) = ?q" by (simp add: signed_of_int)
  with r show ?thesis by (simp add: clock_range_def now_ms_def)
qed

lemma sint_diff_clock_range:
  assumes "clock_range a" "clock_range b"
  shows "sint (a - b) = sint a - sint b"
proof -
  from assms have "- (2 ^ 63) \<le> sint a - sint b" "sint a - sint b < 2 ^ 63"
    by (simp_all add: clock_range_def)
  then have "signed_take_bit 63 (sint a - sint b) = sint a - sint b"
    by (rule signed_take_bit_int_eq_self)
  then show ?thesis by (simp add: sint_word_ariths)
qed

lemma distinct_map_wrt:
  "sorted_wrt (\<lambda>a b. f a \<noteq> f b) xs \<Longrightarrow> distinct (map f xs)"
  by (induction xs) auto

section \<open>The generators of the package\<close>

lemma NewWorker_wellformed:
  assumes "NewWorker wid dcid = Inr w"
  shows "wellformed w"
proof -
  from assms have "lastTimestamp w = 0"
    by (auto simp: NewWorker_def split: if_splits)
  with NewWorker_valid(1,2)[OF assms] show ?thesis by (simp add: wellformed_def)
qed

lemma DefaultWorker_wellformed: "wellformed DefaultWorker"
  using DefaultWorker_valid by (simp add: wellformed_def DefaultWorker_def)

lemma Next_timestamp_mono:
  assumes "Next clk i w = Some (r, j, w')"
  shows "lastTimestamp w \<le>s lastTimestamp w'"
proof (cases r)
  case (Inl e)
  with assms have "w' = w" by (auto dest: Next_error_unchanged)
  then show ?thesis by simp
next
  case (Inr x)
  with assms have n: "Next clk i w = Some (Inr x, j, w')" by simp
  from Next_Inr(1)[OF n]
  consider (fresh) "lastTimestamp w <s now_ms clk i"
    | (same) "now_ms clk i = lastTimestamp w" "sequence w' \<noteq> 0"
    | (wrap) "now_ms clk i = lastTimestamp w" "sequence w' = 0"
    by (cases "sequence w' = 0") (auto simp: signed.le_less)
  then show ?thesis
  proof cases
    case fresh
    from Next_Inr(6)[OF n fresh] Next_Inr(5)[OF n] fresh show ?thesis
      by (simp add: signed.less_imp_le)
  next
    case same
    from Next_Inr(8)[OF n same] Next_Inr(5)[OF n] same(1) show ?thesis by simp
  next
    case wrap
    from Next_Inr(9)[OF n wrap] have "lastTimestamp w <s lastTimestamp w'"
      by (simp only: spun_def fst_conv)
    then show ?thesis by (rule signed.less_imp_le)
  qed
qed

lemma Next_wellformed:
  assumes "Next clk i w = Some (r, j, w')" "wellformed w"
  shows "wellformed w'"
proof -
  from assms have "valid_ids w'" by (auto simp: wellformed_def dest: Next_valid_ids)
  moreover have "valid_seq w'"
  proof (cases r)
    case (Inl e)
    with assms(1) have "w' = w" by (auto dest: Next_error_unchanged)
    with assms(2) show ?thesis by (simp add: wellformed_def)
  next
    case (Inr x)
    with assms(1) show ?thesis by (auto dest: Next_valid_seq)
  qed
  moreover from assms(2) Next_timestamp_mono[OF assms(1)] have "0 \<le>s lastTimestamp w'"
    unfolding wellformed_def by (meson signed.order_trans)
  ultimately show ?thesis by (simp add: wellformed_def)
qed

lemma calls_timestamp_mono:
  "calls clk n i w = Some cs \<Longrightarrow> c \<in> set cs \<Longrightarrow> lastTimestamp w \<le>s lastTimestamp (after c)"
proof (induction n arbitrary: i w cs)
  case 0
  then show ?case by simp
next
  case (Suc n)
  from Suc.prems(1) obtain r j w' cs' where s: "Next clk i w = Some (r, j, w')"
    "calls clk n j w' = Some cs'" "cs = \<lparr>at = i, before = w, returned = r, after = w'\<rparr> # cs'"
    by (rule calls_Suc)
  note m = Next_timestamp_mono[OF s(1)]
  show ?case
  proof (cases "c \<in> set cs'")
    case True
    from Suc.IH[OF s(2) True] m show ?thesis by (meson signed.order_trans)
  next
    case False
    with Suc.prems(2) s(3) have "c = \<lparr>at = i, before = w, returned = r, after = w'\<rparr>" by simp
    with m show ?thesis by simp
  qed
qed

lemma lifetime_delta_fits:
  assumes "0 \<le>s t" "in_lifetime t"
  shows "delta_fits t"
proof -
  from assms(1) have "0 \<le> sint t" by (simp add: word_sle_eq)
  with assms(2) show ?thesis by (simp add: delta_fits_def in_lifetime_def twepoch_def)
qed

section \<open>Worked calls\<close>

text \<open>
  Calls evaluated on concrete clocks and generators; the examples below are built on them.
\<close>

lemma now_ms_stopped: "now_ms (readings [] 1546272000100000000) k = 1546272000100"
  by (simp add: now_ms_def readings_def)

lemma Next_example_fresh:
  "Next (readings [] 1546272000100000000) k DefaultWorker =
     Some (Inr 419430400, Suc k,
           \<lparr>workerID = 0, datacenterID = 0, sequence = 0, lastTimestamp = 1546272000100\<rparr>)"
  by (simp add: Next_def now_ms_stopped DefaultWorker_def compose_def shifts_eq twepoch_def Let_def
      word_sless_alt)

lemma Next_example_same:
  "Next (readings [] 1546272000100000000) k
        \<lparr>workerID = 0, datacenterID = 0, sequence = 0, lastTimestamp = 1546272000100\<rparr> =
     Some (Inr 419430401, Suc k,
           \<lparr>workerID = 0, datacenterID = 0, sequence = 1, lastTimestamp = 1546272000100\<rparr>)"
  by (simp add: Next_def now_ms_stopped compose_def shifts_eq twepoch_def sequenceMask_eq Let_def)

lemma NewWorker_examples:
  "NewWorker 31 31 =
     Inr \<lparr>workerID = 31, datacenterID = 31, sequence = 0, lastTimestamp = 0\<rparr>"
  "NewWorker 32 0 = Inl (FatalWorkerID 31)"
  "NewWorker 0 255 = Inl (FatalDatacenterID 31)"
  "NewWorker 1 0 = Inr \<lparr>workerID = 1, datacenterID = 0, sequence = 0, lastTimestamp = 0\<rparr>"
  "NewWorker 0 1 = Inr \<lparr>workerID = 0, datacenterID = 1, sequence = 0, lastTimestamp = 0\<rparr>"
  by (simp_all add: NewWorker_def maxWorkerID_eq maxDatacenterID_eq)

lemma Next_example_worker_1_0:
  "Next (readings [] 1546272000100000000) k
        \<lparr>workerID = 1, datacenterID = 0, sequence = 0, lastTimestamp = 0\<rparr> =
     Some (Inr 419434496, Suc k,
           \<lparr>workerID = 1, datacenterID = 0, sequence = 0, lastTimestamp = 1546272000100\<rparr>)"
  by (simp add: Next_def now_ms_stopped compose_def shifts_eq twepoch_def Let_def word_sless_alt)

lemma Next_example_worker_0_1:
  "Next (readings [] 1546272000100000000) k
        \<lparr>workerID = 0, datacenterID = 1, sequence = 0, lastTimestamp = 0\<rparr> =
     Some (Inr 419561472, Suc k,
           \<lparr>workerID = 0, datacenterID = 1, sequence = 0, lastTimestamp = 1546272000100\<rparr>)"
  by (simp add: Next_def now_ms_stopped compose_def shifts_eq twepoch_def Let_def word_sless_alt)

lemma calls_example_two:
  "calls (readings [] 1546272000100000000) (Suc (Suc 0)) 0 DefaultWorker =
     Some [\<lparr>at = 0, before = DefaultWorker, returned = Inr 419430400,
             after = \<lparr>workerID = 0, datacenterID = 0, sequence = 0,
                       lastTimestamp = 1546272000100\<rparr>\<rparr>,
           \<lparr>at = Suc 0,
             before = \<lparr>workerID = 0, datacenterID = 0, sequence = 0,
                        lastTimestamp = 1546272000100\<rparr>,
             returned = Inr 419430401,
             after = \<lparr>workerID = 0, datacenterID = 0, sequence = 1,
                       lastTimestamp = 1546272000100\<rparr>\<rparr>]"
  by (simp add: Next_example_fresh Next_example_same)

lemma now_ms_late:
  "now_ms (readings [3745295255551000000, 3745295255552000000] 3745295255552000000) 0
     = 3745295255551"
  "now_ms (readings [3745295255551000000, 3745295255552000000] 3745295255552000000) (Suc 0)
     = 3745295255552"
  by (simp_all add: now_ms_def readings_def)

lemma Next_example_late_1:
  "Next (readings [3745295255551000000, 3745295255552000000] 3745295255552000000) 0 DefaultWorker =
     Some (Inr 9223372036850581504, Suc 0,
           \<lparr>workerID = 0, datacenterID = 0, sequence = 0, lastTimestamp = 3745295255551\<rparr>)"
  by (simp add: Next_def now_ms_late DefaultWorker_def compose_def shifts_eq twepoch_def Let_def
      word_sless_alt)

lemma Next_example_late_2:
  "Next (readings [3745295255551000000, 3745295255552000000] 3745295255552000000) (Suc 0)
        \<lparr>workerID = 0, datacenterID = 0, sequence = 0, lastTimestamp = 3745295255551\<rparr> =
     Some (Inr (- 9223372036854775808), Suc (Suc 0),
           \<lparr>workerID = 0, datacenterID = 0, sequence = 0, lastTimestamp = 3745295255552\<rparr>)"
  by (simp add: Next_def now_ms_late compose_def shifts_eq twepoch_def Let_def word_sless_alt)

lemma calls_example_late:
  "calls (readings [3745295255551000000, 3745295255552000000] 3745295255552000000)
         (Suc (Suc 0)) 0 DefaultWorker =
     Some [\<lparr>at = 0, before = DefaultWorker, returned = Inr 9223372036850581504,
             after = \<lparr>workerID = 0, datacenterID = 0, sequence = 0,
                       lastTimestamp = 3745295255551\<rparr>\<rparr>,
           \<lparr>at = Suc 0,
             before = \<lparr>workerID = 0, datacenterID = 0, sequence = 0,
                        lastTimestamp = 3745295255551\<rparr>,
             returned = Inr (- 9223372036854775808),
             after = \<lparr>workerID = 0, datacenterID = 0, sequence = 0,
                       lastTimestamp = 3745295255552\<rparr>\<rparr>]"
  by (simp add: Next_example_late_1 Next_example_late_2)

lemma tilNextMillis_stopped:
  "tilNextMillis (readings [] 1546272000100000000) k 1546272000100 = None"
  by (rule tilNextMillis_None) (simp add: now_ms_stopped)

lemma Next_example_stopped_wrap:
  "Next (readings [] 1546272000100000000) k
        \<lparr>workerID = 0, datacenterID = 0, sequence = 4095, lastTimestamp = 1546272000100\<rparr>
     = None"
  by (simp add: Next_wrap now_ms_stopped sequenceMask_eq tilNextMillis_stopped)

lemma calls_example_stopped:
  "calls (readings [] 1546272000100000000) 4097 0 DefaultWorker = None"
proof -
  let ?clk = "readings [] 1546272000100000000"
  let ?w1 = "\<lparr>workerID = 0, datacenterID = 0, sequence = 0, lastTimestamp = 1546272000100\<rparr>"
  have "uint (sequence ?w1) + int 4095 \<le> 4095" by simp
  with calls_burst[of "Suc 0" 4095 ?clk ?w1 "Suc 0"] obtain cs1
    where "calls ?clk (4095 + Suc 0) (Suc 0) ?w1 =
             map_option ((@) cs1)
               (calls ?clk (Suc 0) (Suc 0 + 4095) (?w1\<lparr>sequence := sequence ?w1 + of_nat 4095\<rparr>))"
    by (auto simp: now_ms_stopped)
  then have b: "calls ?clk 4096 (Suc 0) ?w1 = None"
    by (simp add: Next_example_stopped_wrap)
  have "calls ?clk (Suc 4096) 0 DefaultWorker = None"
    by (subst calls.simps) (simp add: Next_example_fresh b)
  moreover have "(4097 :: nat) = Suc 4096" by simp
  ultimately show ?thesis by (simp only:)
qed

lemma now_ms_back50:
  "now_ms (readings [1546272000100000000, 1546272000050000000] 1546272000050000000) 0
     = 1546272000100"
  "now_ms (readings [1546272000100000000, 1546272000050000000] 1546272000050000000) (Suc 0)
     = 1546272000050"
  by (simp_all add: now_ms_def readings_def)

lemma Next_example_back50_1:
  "Next (readings [1546272000100000000, 1546272000050000000] 1546272000050000000) 0
        DefaultWorker =
     Some (Inr 419430400, Suc 0,
           \<lparr>workerID = 0, datacenterID = 0, sequence = 0, lastTimestamp = 1546272000100\<rparr>)"
  by (simp add: Next_def now_ms_back50 DefaultWorker_def compose_def shifts_eq twepoch_def Let_def
      word_sless_alt)

lemma now_ms_burst:
  "k < 4097 \<Longrightarrow>
     now_ms (readings (replicate 4097 1546272000100000000) 1546272000101000000) k
       = 1546272000100"
  "4097 \<le> k \<Longrightarrow>
     now_ms (readings (replicate 4097 1546272000100000000) 1546272000101000000) k
       = 1546272000101"
  by (simp_all add: now_ms_def readings_def)

lemma tilNextMillis_burst:
  "tilNextMillis (readings (replicate 4097 1546272000100000000) 1546272000101000000)
     4097 1546272000100 = Some (1546272000101, 4098)"
  by (subst tilNextMillis.simps) (simp add: now_ms_burst word_sle_eq)

lemma Next_example_burst_first:
  "Next (readings (replicate 4097 1546272000100000000) 1546272000101000000) 0 DefaultWorker =
     Some (Inr 419430400, Suc 0,
           \<lparr>workerID = 0, datacenterID = 0, sequence = 0, lastTimestamp = 1546272000100\<rparr>)"
  by (simp add: Next_def now_ms_burst DefaultWorker_def compose_def shifts_eq twepoch_def Let_def
      word_sless_alt)

lemma Next_example_burst_wrap:
  "Next (readings (replicate 4097 1546272000100000000) 1546272000101000000) 4096
        \<lparr>workerID = 0, datacenterID = 0, sequence = 4095, lastTimestamp = 1546272000100\<rparr> =
     Some (Inr 423624704, 4098,
           \<lparr>workerID = 0, datacenterID = 0, sequence = 0, lastTimestamp = 1546272000101\<rparr>)"
  by (simp add: Next_wrap now_ms_burst sequenceMask_eq tilNextMillis_burst compose_def shifts_eq
      twepoch_def)

lemma calls_example_burst:
  "\<exists>cs1. length cs1 = 4095 \<and> (\<forall>c \<in> set cs1. \<not> isl (returned c)) \<and>
     calls (readings (replicate 4097 1546272000100000000) 1546272000101000000) 4097 0
           DefaultWorker =
       Some (\<lparr>at = 0, before = DefaultWorker, returned = Inr 419430400,
               after = \<lparr>workerID = 0, datacenterID = 0, sequence = 0,
                         lastTimestamp = 1546272000100\<rparr>\<rparr>
             # cs1 @
             [\<lparr>at = 4096,
                before = \<lparr>workerID = 0, datacenterID = 0, sequence = 4095,
                           lastTimestamp = 1546272000100\<rparr>,
                returned = Inr 423624704,
                after = \<lparr>workerID = 0, datacenterID = 0, sequence = 0,
                          lastTimestamp = 1546272000101\<rparr>\<rparr>])"
proof -
  let ?clk = "readings (replicate 4097 1546272000100000000) 1546272000101000000"
  let ?w1 = "\<lparr>workerID = 0, datacenterID = 0, sequence = 0, lastTimestamp = 1546272000100\<rparr>"
  let ?c0 = "\<lparr>at = 0, before = DefaultWorker, returned = Inr 419430400, after = ?w1\<rparr>"
  let ?cl = "\<lparr>at = 4096,
                before = \<lparr>workerID = 0, datacenterID = 0, sequence = 4095,
                           lastTimestamp = 1546272000100\<rparr>,
                returned = Inr 423624704,
                after = \<lparr>workerID = 0, datacenterID = 0, sequence = 0,
                          lastTimestamp = 1546272000101\<rparr>\<rparr>"
  have "uint (sequence ?w1) + int 4095 \<le> 4095" by simp
  with calls_burst[of "Suc 0" 4095 ?clk ?w1 "Suc 0"] obtain cs1
    where cs1: "length cs1 = 4095" "\<forall>c \<in> set cs1. \<not> isl (returned c)"
      and "calls ?clk (4095 + Suc 0) (Suc 0) ?w1 =
             map_option ((@) cs1)
               (calls ?clk (Suc 0) (Suc 0 + 4095) (?w1\<lparr>sequence := sequence ?w1 + of_nat 4095\<rparr>))"
    by (auto simp: now_ms_burst)
  then have b: "calls ?clk 4096 (Suc 0) ?w1 = Some (cs1 @ [?cl])"
    by (simp add: Next_example_burst_wrap)
  have "calls ?clk (Suc 4096) 0 DefaultWorker = Some (?c0 # cs1 @ [?cl])"
    by (subst calls.simps) (simp add: Next_example_burst_first b)
  moreover have "(4097 :: nat) = Suc 4096" by simp
  ultimately have "calls ?clk 4097 0 DefaultWorker = Some (?c0 # cs1 @ [?cl])" by (simp only:)
  with cs1 show ?thesis by blast
qed

section \<open>The two steps of a call\<close>

text \<open>A call that runs alone is its two steps, one after the other.\<close>

lemma Next_two_steps:
  "Next clk i w =
     (case Next_check clk i w of (r, j) \<Rightarrow>
        map_option (\<lambda>(c, k). (returned c, k, after c)) (finish clk i j r w))"
  by (auto simp: Next_def Next_check_def Next_locked_def finish_def Let_def
      split: option.splits prod.splits)

lemma calls_burst_state:
  assumes "\<And>k. i \<le> k \<Longrightarrow> k < i + n \<Longrightarrow> now_ms clk k = lastTimestamp w"
    and "uint (sequence w) + int n \<le> 4095"
  shows "\<exists>cs1. calls clk n i w = Some cs1 \<and> length cs1 = n
           \<and> (\<forall>c \<in> set cs1. \<not> isl (returned c))
           \<and> (cs1 \<noteq> [] \<longrightarrow> after (last cs1) = w\<lparr>sequence := sequence w + of_nat n\<rparr>)"
  using assms
proof (induction n arbitrary: i w)
  case 0
  then show ?case by simp
next
  case (Suc n)
  let ?w1 = "w\<lparr>sequence := sequence w + 1\<rparr>"
  from Suc.prems(2) have le: "uint (sequence w) + 1 \<le> 4095" by simp
  from Suc.prems(1)[of i] have now: "now_ms clk i = lastTimestamp w" by simp
  from seq_no_wrap(1,2)[OF le]
  have "(sequence w + 1) AND word_of_int sequenceMask = sequence w + 1"
    "(sequence w + 1) AND word_of_int sequenceMask \<noteq> 0"
    by (simp_all add: sequenceMask_eq)
  with Next_same[OF now] obtain x where nx: "Next clk i w = Some (Inr x, Suc i, ?w1)"
    by simp
  have "\<And>k. Suc i \<le> k \<Longrightarrow> k < Suc i + n \<Longrightarrow> now_ms clk k = lastTimestamp ?w1"
    using Suc.prems(1) by simp
  moreover have "uint (sequence ?w1) + int n \<le> 4095"
    using Suc.prems(2) seq_no_wrap(3)[OF le] by simp
  ultimately obtain cs1 where cs1: "calls clk n (Suc i) ?w1 = Some cs1" "length cs1 = n"
    "\<forall>c \<in> set cs1. \<not> isl (returned c)"
    "cs1 \<noteq> [] \<longrightarrow> after (last cs1) = ?w1\<lparr>sequence := sequence ?w1 + of_nat n\<rparr>"
    using Suc.IH[of "Suc i" ?w1] by blast
  let ?c = "\<lparr>at = i, before = w, returned = Inr x, after = ?w1\<rparr>"
  have w: "?w1\<lparr>sequence := sequence ?w1 + of_nat n\<rparr> = w\<lparr>sequence := sequence w + of_nat (Suc n)\<rparr>"
    by (simp add: add.assoc)
  have "calls clk (Suc n) i w = Some (?c # cs1)" using nx cs1(1) by simp
  moreover have "length (?c # cs1) = Suc n" "\<forall>c \<in> set (?c # cs1). \<not> isl (returned c)"
    using cs1(2,3) by simp_all
  moreover have "after (last (?c # cs1)) = w\<lparr>sequence := sequence w + of_nat (Suc n)\<rparr>"
  proof (cases "cs1 = []")
    case True
    with cs1(2) have "n = 0" by simp
    with True show ?thesis by simp
  next
    case False
    with cs1(4) w show ?thesis by simp
  qed
  ultimately show ?case by blast
qed

section \<open>Worked calls that overlap\<close>

lemma now_ms_race:
  "k < 4098 \<Longrightarrow>
     now_ms (readings (replicate 4098 1546272000100000000) 1546272000101000000) k
       = 1546272000100"
  "4098 \<le> k \<Longrightarrow>
     now_ms (readings (replicate 4098 1546272000100000000) 1546272000101000000) k
       = 1546272000101"
  by (simp_all add: now_ms_def readings_def)

lemma tilNextMillis_race:
  "tilNextMillis (readings (replicate 4098 1546272000100000000) 1546272000101000000)
     4098 1546272000100 = Some (1546272000101, 4099)"
  by (subst tilNextMillis.simps) (simp add: now_ms_race word_sle_eq)

lemma Next_example_race_first:
  "Next (readings (replicate 4098 1546272000100000000) 1546272000101000000) 0 DefaultWorker =
     Some (Inr 419430400, Suc 0,
           \<lparr>workerID = 0, datacenterID = 0, sequence = 0, lastTimestamp = 1546272000100\<rparr>)"
  by (simp add: Next_def now_ms_race DefaultWorker_def compose_def shifts_eq twepoch_def Let_def
      word_sless_alt)

lemma calls_example_race:
  "\<exists>cs1. calls (readings (replicate 4098 1546272000100000000) 1546272000101000000) 4096 0
           DefaultWorker =
       Some (\<lparr>at = 0, before = DefaultWorker, returned = Inr 419430400,
               after = \<lparr>workerID = 0, datacenterID = 0, sequence = 0,
                         lastTimestamp = 1546272000100\<rparr>\<rparr> # cs1)
     \<and> length cs1 = 4095 \<and> (\<forall>c \<in> set cs1. \<not> isl (returned c))
     \<and> after (last cs1) =
         \<lparr>workerID = 0, datacenterID = 0, sequence = 4095, lastTimestamp = 1546272000100\<rparr>"
proof -
  let ?clk = "readings (replicate 4098 1546272000100000000) 1546272000101000000"
  let ?w1 = "\<lparr>workerID = 0, datacenterID = 0, sequence = 0, lastTimestamp = 1546272000100\<rparr>"
  let ?c0 = "\<lparr>at = 0, before = DefaultWorker, returned = Inr 419430400, after = ?w1\<rparr>"
  have "uint (sequence ?w1) + int 4095 \<le> 4095" by simp
  with calls_burst_state[of "Suc 0" 4095 ?clk ?w1] obtain cs1
    where cs1: "calls ?clk 4095 (Suc 0) ?w1 = Some cs1" "length cs1 = 4095"
      "\<forall>c \<in> set cs1. \<not> isl (returned c)"
      "cs1 \<noteq> [] \<longrightarrow> after (last cs1) = ?w1\<lparr>sequence := sequence ?w1 + of_nat 4095\<rparr>"
    by (auto simp: now_ms_race)
  from cs1(2) have "cs1 \<noteq> []" by auto
  with cs1(4) have l: "after (last cs1) =
      \<lparr>workerID = 0, datacenterID = 0, sequence = 4095, lastTimestamp = 1546272000100\<rparr>"
    by simp
  have "calls ?clk (Suc 4095) 0 DefaultWorker = Some (?c0 # cs1)"
    by (subst calls.simps) (simp add: Next_example_race_first cs1(1))
  moreover have "(4096 :: nat) = Suc 4095" by simp
  ultimately have "calls ?clk 4096 0 DefaultWorker = Some (?c0 # cs1)" by (simp only:)
  with cs1(2,3) l show ?thesis by blast
qed

lemma overlapping_example_race:
  "overlapping (readings (replicate 4098 1546272000100000000) 1546272000101000000) 4096
     \<lparr>workerID = 0, datacenterID = 0, sequence = 4095, lastTimestamp = 1546272000100\<rparr> =
   Some [\<lparr>at = 4096,
           before = \<lparr>workerID = 0, datacenterID = 0, sequence = 4095,
                      lastTimestamp = 1546272000100\<rparr>,
           returned = Inr 423624704,
           after = \<lparr>workerID = 0, datacenterID = 0, sequence = 0,
                     lastTimestamp = 1546272000101\<rparr>\<rparr>,
         \<lparr>at = 4097,
           before = \<lparr>workerID = 0, datacenterID = 0, sequence = 0,
                      lastTimestamp = 1546272000101\<rparr>,
           returned = Inr 419430400,
           after = \<lparr>workerID = 0, datacenterID = 0, sequence = 0,
                     lastTimestamp = 1546272000100\<rparr>\<rparr>]"
proof -
  let ?clk = "readings (replicate 4098 1546272000100000000) 1546272000101000000"
  let ?w = "\<lparr>workerID = 0, datacenterID = 0, sequence = 4095, lastTimestamp = 1546272000100\<rparr>"
  let ?w' = "\<lparr>workerID = 0, datacenterID = 0, sequence = 0, lastTimestamp = 1546272000101\<rparr>"
  have c1: "Next_check ?clk 4096 ?w = (Inr 1546272000100, 4097)"
    and c2: "Next_check ?clk 4097 ?w = (Inr 1546272000100, 4098)"
    by (simp_all add: Next_check_def now_ms_race)
  have l1: "Next_locked ?clk 4098 1546272000100 ?w = Some (423624704, 4099, ?w')"
    by (simp add: Next_locked_def sequenceMask_eq tilNextMillis_race compose_def shifts_eq
        twepoch_def)
  have l2: "Next_locked ?clk 4099 1546272000100 ?w' =
      Some (419430400, 4099,
            \<lparr>workerID = 0, datacenterID = 0, sequence = 0, lastTimestamp = 1546272000100\<rparr>)"
    by (simp add: Next_locked_def compose_def shifts_eq twepoch_def)
  show ?thesis by (simp add: overlapping_def c1 c2 finish_def l1 l2)
qed

section \<open>The claims\<close>

text \<open>
  C1, as the code has it. On a generator of the package, when \<open>n\<close> calls of \<open>Next\<close> in
  sequence each read a clock value that is not before the \<open>lastTimestamp\<close> stored at the
  time of the call, and every effective millisecond is within the lifetime of the scheme
  (before \<open>1546272000000 + 2^41\<close>, where the timestamp field overflows), then the calls return
  \<open>n\<close> identifiers and these are strictly increasing as \<open>int64\<close> values.
\<close>

theorem ids_strictly_increasing:
  assumes "wellformed w" "calls clk n i w = Some cs"
    and "\<forall>c \<in> set cs. lastTimestamp (before c) \<le>s now_ms clk (at c)"
    and "\<forall>c \<in> set cs. in_lifetime (lastTimestamp (after c))"
  shows "length (ids cs) = n \<and> sorted_wrt (<s) (ids cs)"
proof -
  let ?id = "\<lambda>c. compose (lastTimestamp (after c)) (after c)"
  from assms(1) have vi: "valid_ids w" and nn: "0 \<le>s lastTimestamp w"
    by (simp_all add: wellformed_def)
  have all: "issued cs = cs" using assms(2,3) by (rule issued_all)
  with ids_issued[OF assms(2)] have ids: "ids cs = map ?id cs" by simp
  from calls_issued_sorted[OF assms(2)] all
  have vs: "\<forall>c \<in> set cs. valid_seq (after c)"
    and sr: "sorted_wrt (\<lambda>a b. rank (after a) < rank (after b)) cs" by simp_all
  have fits: "delta_fits (lastTimestamp (after c))" if c: "c \<in> set cs" for c
  proof (rule lifetime_delta_fits)
    from nn calls_timestamp_mono[OF assms(2) c] show "0 \<le>s lastTimestamp (after c)"
      by (meson signed.order_trans)
    from assms(4) c show "in_lifetime (lastTimestamp (after c))" by simp
  qed
  have "sorted_wrt (\<lambda>a b. ?id a <s ?id b) cs"
  proof (rule sorted_wrt_mono_rel[OF _ sr])
    fix a b
    assume ab: "a \<in> set cs" "b \<in> set cs" and r: "rank (after a) < rank (after b)"
    from calls_ids[OF assms(2) vi] ab
    have "valid_ids (after a)" "workerID (after b) = workerID (after a)"
      "datacenterID (after b) = datacenterID (after a)" by simp_all
    with vs fits ab r show "?id a <s ?id b" by (intro compose_order) simp_all
  qed
  then have "sorted_wrt (<s) (ids cs)" by (simp add: ids sorted_wrt_map)
  moreover have "length (ids cs) = n" using calls_length[OF assms(2)] by (simp add: ids)
  ultimately show ?thesis by simp
qed

theorem ids_strictly_increasing_witness:
  "wellformed DefaultWorker
   \<and> calls (readings [] 1546272000100000000) (Suc (Suc 0)) 0 DefaultWorker =
       Some [\<lparr>at = 0, before = DefaultWorker, returned = Inr 419430400,
               after = \<lparr>workerID = 0, datacenterID = 0, sequence = 0,
                         lastTimestamp = 1546272000100\<rparr>\<rparr>,
             \<lparr>at = Suc 0,
               before = \<lparr>workerID = 0, datacenterID = 0, sequence = 0,
                          lastTimestamp = 1546272000100\<rparr>,
               returned = Inr 419430401,
               after = \<lparr>workerID = 0, datacenterID = 0, sequence = 1,
                         lastTimestamp = 1546272000100\<rparr>\<rparr>]
   \<and> lastTimestamp DefaultWorker \<le>s now_ms (readings [] 1546272000100000000) 0
   \<and> (1546272000100 :: int64) \<le>s now_ms (readings [] 1546272000100000000) (Suc 0)
   \<and> in_lifetime 1546272000100
   \<and> sorted_wrt (<s) [419430400, 419430401 :: int64]"
proof -
  have a: "lastTimestamp DefaultWorker \<le>s now_ms (readings [] 1546272000100000000) 0"
    "(1546272000100 :: int64) \<le>s now_ms (readings [] 1546272000100000000) (Suc 0)"
    by (simp_all add: now_ms_stopped DefaultWorker_def word_sle_eq)
  have l: "in_lifetime 1546272000100" by (simp add: in_lifetime_def twepoch_def)
  from ids_strictly_increasing[OF DefaultWorker_wellformed calls_example_two] a l
  have "sorted_wrt (<s) [419430400, 419430401 :: int64]" by simp
  with DefaultWorker_wellformed calls_example_two a l show ?thesis by simp
qed

text \<open>
  The claim without the bound on the timestamps fails where the timestamp field overflows:
  at 3745295255551 ms the distance from the epoch constant is \<open>2^41 - 1\<close>, one millisecond
  later the shifted value is \<open>2^63\<close>, which is the least \<open>int64\<close>.
\<close>

theorem ids_not_increasing_past_lifetime:
  "wellformed DefaultWorker
   \<and> calls (readings [3745295255551000000, 3745295255552000000] 3745295255552000000)
         (Suc (Suc 0)) 0 DefaultWorker =
       Some [\<lparr>at = 0, before = DefaultWorker, returned = Inr 9223372036850581504,
               after = \<lparr>workerID = 0, datacenterID = 0, sequence = 0,
                         lastTimestamp = 3745295255551\<rparr>\<rparr>,
             \<lparr>at = Suc 0,
               before = \<lparr>workerID = 0, datacenterID = 0, sequence = 0,
                          lastTimestamp = 3745295255551\<rparr>,
               returned = Inr (- 9223372036854775808),
               after = \<lparr>workerID = 0, datacenterID = 0, sequence = 0,
                         lastTimestamp = 3745295255552\<rparr>\<rparr>]
   \<and> lastTimestamp DefaultWorker
       \<le>s now_ms (readings [3745295255551000000, 3745295255552000000] 3745295255552000000) 0
   \<and> (3745295255551 :: int64)
       \<le>s now_ms (readings [3745295255551000000, 3745295255552000000] 3745295255552000000) (Suc 0)
   \<and> in_lifetime 3745295255551 \<and> \<not> in_lifetime 3745295255552
   \<and> \<not> sorted_wrt (<s) [9223372036850581504, - 9223372036854775808 :: int64]"
  using DefaultWorker_wellformed calls_example_late
  by (simp add: now_ms_late DefaultWorker_def word_sle_eq word_sless_alt in_lifetime_def
      twepoch_def)

text \<open>
  C2. Every identifier that \<open>Next\<close> returns is
  \<open>((effectiveMillis - 1546272000000) << 22) | (datacenterID << 17) | (workerID << 12) | sequence\<close>,
  in \<open>int64\<close> arithmetic, where \<open>effectiveMillis\<close> is the value the call stored in
  \<open>lastTimestamp\<close>, which is the last reading of the clock the call made, and \<open>sequence\<close>
  is the sequence the call stored.
\<close>

theorem Next_identifier:
  assumes "Next clk i w = Some (Inr x, j, w')"
  shows "x = push_bit 22 (lastTimestamp w' - 1546272000000)
               OR push_bit 17 (datacenterID w) OR push_bit 12 (workerID w) OR sequence w'
         \<and> i < j \<and> lastTimestamp w' = now_ms clk (j - 1)"
proof -
  from assms have "x = compose (lastTimestamp w') w'" by (rule Next_Inr(2))
  moreover from assms have "w' = w\<lparr>sequence := sequence w', lastTimestamp := lastTimestamp w'\<rparr>"
    by (rule Next_Inr(3))
  then have "workerID w' = workerID w" "datacenterID w' = datacenterID w"
    by (rule Next_unchanged_ids)+
  ultimately have "x = push_bit 22 (lastTimestamp w' - 1546272000000)
               OR push_bit 17 (datacenterID w) OR push_bit 12 (workerID w) OR sequence w'"
    by (simp add: compose_def shifts_eq twepoch_def)
  moreover from assms have "i < j \<and> lastTimestamp w' = now_ms clk (j - 1)"
    by (simp add: Next_Inr(4,5))
  ultimately show ?thesis by blast
qed

theorem Next_identifier_witness:
  "Next (readings [] 1546272000100000000) 0
        \<lparr>workerID = 1, datacenterID = 0, sequence = 0, lastTimestamp = 0\<rparr> =
     Some (Inr 419434496, Suc 0,
           \<lparr>workerID = 1, datacenterID = 0, sequence = 0, lastTimestamp = 1546272000100\<rparr>)
   \<and> (419434496 :: int64) =
         push_bit 22 (1546272000100 - 1546272000000) OR push_bit 17 0 OR push_bit 12 1 OR 0
   \<and> now_ms (readings [] 1546272000100000000) (Suc 0 - 1) = 1546272000100"
  using Next_identifier[OF Next_example_worker_1_0[of 0]] Next_example_worker_1_0[of 0]
  by (simp add: now_ms_stopped)

text \<open>
  C3, as the code has it. A reading of the clock before \<open>lastTimestamp\<close> makes \<open>Next\<close>
  return the clock error with the value \<open>lastTimestamp - reading\<close> (for a \<open>lastTimestamp\<close>
  in the range of clock readings this is the difference of the two numbers), no identifier,
  and the generator unchanged. A reading that is not before \<open>lastTimestamp\<close> never
  gives an error. The call then returns an identifier when the reading is after
  \<open>lastTimestamp\<close>, or the incremented sequence is not zero, or a later reading of the clock
  is after \<open>lastTimestamp\<close>; when the sequence wraps and no later reading is after
  \<open>lastTimestamp\<close>, the call does not return.
\<close>

theorem clock_regression_only_error:
  "(now_ms clk i <s lastTimestamp w \<longrightarrow>
      Next clk i w =
        Some (Inl (ClockMovedBackwards (lastTimestamp w - now_ms clk i)), Suc i, w)
      \<and> (clock_range (lastTimestamp w) \<longrightarrow>
            sint (lastTimestamp w - now_ms clk i)
              = sint (lastTimestamp w) - sint (now_ms clk i)))
   \<and> (lastTimestamp w \<le>s now_ms clk i \<longrightarrow>
        (\<forall>e j w'. Next clk i w \<noteq> Some (Inl e, j, w'))
        \<and> (lastTimestamp w <s now_ms clk i
             \<or> (sequence w + 1) AND 4095 \<noteq> 0
             \<or> (\<exists>k>i. lastTimestamp w <s now_ms clk k)
             \<longrightarrow> (\<exists>x j w'. Next clk i w = Some (Inr x, j, w')))
        \<and> (now_ms clk i = lastTimestamp w \<and> (sequence w + 1) AND 4095 = 0
             \<and> (\<forall>k>i. now_ms clk k \<le>s lastTimestamp w)
             \<longrightarrow> Next clk i w = None))"
proof (intro conjI impI allI)
  assume "now_ms clk i <s lastTimestamp w"
  then show "Next clk i w =
      Some (Inl (ClockMovedBackwards (lastTimestamp w - now_ms clk i)), Suc i, w)"
    by (rule Next_regress)
next
  assume "clock_range (lastTimestamp w)"
  then show "sint (lastTimestamp w - now_ms clk i) = sint (lastTimestamp w) - sint (now_ms clk i)"
    using now_ms_clock_range by (rule sint_diff_clock_range)
next
  fix e j w'
  assume "lastTimestamp w \<le>s now_ms clk i"
  then have "\<not> now_ms clk i <s lastTimestamp w" by (simp add: signed.not_less)
  then show "Next clk i w \<noteq> Some (Inl e, j, w')" by (auto dest: Next_Inl)
next
  assume le: "lastTimestamp w \<le>s now_ms clk i"
    and c: "lastTimestamp w <s now_ms clk i \<or> (sequence w + 1) AND 4095 \<noteq> 0
            \<or> (\<exists>k>i. lastTimestamp w <s now_ms clk k)"
  show "\<exists>x j w'. Next clk i w = Some (Inr x, j, w')"
  proof (cases "lastTimestamp w <s now_ms clk i")
    case True
    then show ?thesis by (simp add: Next_fresh)
  next
    case False
    with le have eq: "now_ms clk i = lastTimestamp w" by (auto simp: signed.le_less)
    show ?thesis
    proof (cases "(sequence w + 1) AND 4095 = 0")
      case False
      with eq show ?thesis by (simp add: Next_same sequenceMask_eq)
    next
      case True
      with c \<open>\<not> lastTimestamp w <s now_ms clk i\<close>
      obtain k where k: "i < k" "lastTimestamp w <s now_ms clk k" by blast
      then have "lastTimestamp w <s now_ms clk (Suc i + (k - Suc i))" by simp
      then obtain y where "tilNextMillis clk (Suc i) (lastTimestamp w) = Some y"
        using tilNextMillis_returns by blast
      with eq True show ?thesis
        by (cases y) (simp add: Next_wrap sequenceMask_eq)
    qed
  qed
next
  assume a: "now_ms clk i = lastTimestamp w \<and> (sequence w + 1) AND 4095 = 0
             \<and> (\<forall>k>i. now_ms clk k \<le>s lastTimestamp w)"
  then have "tilNextMillis clk (Suc i) (lastTimestamp w) = None"
    by (intro tilNextMillis_None) auto
  with a show "Next clk i w = None" by (simp add: Next_wrap sequenceMask_eq)
qed

theorem clock_regression_only_error_witness:
  "(Next (readings [1546272000100000000, 1546272000050000000] 1546272000050000000) 0
         DefaultWorker =
        Some (Inr 419430400, Suc 0,
              \<lparr>workerID = 0, datacenterID = 0, sequence = 0, lastTimestamp = 1546272000100\<rparr>)
    \<and> now_ms (readings [1546272000100000000, 1546272000050000000] 1546272000050000000) (Suc 0)
      <s (1546272000100 :: int64)
    \<and> Next (readings [1546272000100000000, 1546272000050000000] 1546272000050000000) (Suc 0)
         \<lparr>workerID = 0, datacenterID = 0, sequence = 0, lastTimestamp = 1546272000100\<rparr> =
        Some (Inl (ClockMovedBackwards 50), Suc (Suc 0),
              \<lparr>workerID = 0, datacenterID = 0, sequence = 0, lastTimestamp = 1546272000100\<rparr>)
    \<and> clock_range 1546272000100)
   \<and> (lastTimestamp DefaultWorker \<le>s now_ms (readings [] 1546272000100000000) 0
      \<and> lastTimestamp DefaultWorker <s now_ms (readings [] 1546272000100000000) 0
      \<and> Next (readings [] 1546272000100000000) 0 DefaultWorker =
          Some (Inr 419430400, Suc 0,
                \<lparr>workerID = 0, datacenterID = 0, sequence = 0,
                   lastTimestamp = 1546272000100\<rparr>))
   \<and> (now_ms (readings [] 1546272000100000000) 0 = 1546272000100
      \<and> ((4095 :: int64) + 1) AND 4095 = 0
      \<and> Next (readings [] 1546272000100000000) 0
           \<lparr>workerID = 0, datacenterID = 0, sequence = 4095, lastTimestamp = 1546272000100\<rparr>
         = None)"
proof -
  let ?jump = "readings [1546272000100000000, 1546272000050000000] 1546272000050000000"
  let ?stop = "readings [] 1546272000100000000"
  let ?w1 = "\<lparr>workerID = 0, datacenterID = 0, sequence = 0, lastTimestamp = 1546272000100\<rparr>"
  let ?w2 = "\<lparr>workerID = 0, datacenterID = 0, sequence = 4095, lastTimestamp = 1546272000100\<rparr>"
  have r: "now_ms ?jump (Suc 0) <s (1546272000100 :: int64)" "clock_range 1546272000100"
    by (simp_all add: now_ms_back50 clock_range_def)
  with clock_regression_only_error[of ?jump "Suc 0" ?w1]
  have 1: "Next ?jump (Suc 0) ?w1 = Some (Inl (ClockMovedBackwards 50), Suc (Suc 0), ?w1)"
    by (simp add: now_ms_back50)
  have f: "lastTimestamp DefaultWorker \<le>s now_ms ?stop 0"
    "lastTimestamp DefaultWorker <s now_ms ?stop 0"
    by (simp_all add: now_ms_stopped DefaultWorker_def word_sle_eq word_sless_alt)
  with clock_regression_only_error[of ?stop 0 DefaultWorker]
  have "\<exists>x j w'. Next ?stop 0 DefaultWorker = Some (Inr x, j, w')" by blast
  then have 2: "Next ?stop 0 DefaultWorker = Some (Inr 419430400, Suc 0, ?w1)"
    by (simp add: Next_example_fresh)
  have s: "now_ms ?stop 0 = 1546272000100" "((4095 :: int64) + 1) AND 4095 = 0"
    "\<forall>k>0. now_ms ?stop k \<le>s lastTimestamp ?w2"
    by (simp_all add: now_ms_stopped)
  with clock_regression_only_error[of ?stop 0 ?w2]
  have 3: "Next ?stop 0 ?w2 = None" by simp
  from Next_example_back50_1 r 1 f 2 s(1,2) 3 show ?thesis by blast
qed

text \<open>
  The claim as it stands, that a reading not before \<open>lastTimestamp\<close> always makes \<open>Next\<close>
  return an identifier, fails on a clock that stays at one millisecond: the default
  generator returns 4096 identifiers there and its next call waits for ever, in a state whose
  \<open>lastTimestamp\<close> the reading equals.
\<close>

theorem Next_waits_for_ever_on_stopped_clock:
  "lastTimestamp
     \<lparr>workerID = 0, datacenterID = 0, sequence = 4095, lastTimestamp = 1546272000100\<rparr>
     \<le>s now_ms (readings [] 1546272000100000000) 4096
   \<and> Next (readings [] 1546272000100000000) 4096
        \<lparr>workerID = 0, datacenterID = 0, sequence = 4095, lastTimestamp = 1546272000100\<rparr>
      = None
   \<and> calls (readings [] 1546272000100000000) 4097 0 DefaultWorker = None"
  by (simp add: now_ms_stopped Next_example_stopped_wrap calls_example_stopped)

text \<open>
  Calls that do not overlap. When the reading of the clock equals \<open>lastTimestamp\<close>, a call
  of \<open>Next\<close> that returns has returned an identifier and stored \<open>(sequence + 1) & 4095\<close>,
  the sequence incremented modulo 4096. If that is zero the call has read the clock until a
  reading after \<open>lastTimestamp\<close> and stored that reading as the effective millisecond, all
  readings in between being at most \<open>lastTimestamp\<close>; otherwise the millisecond is
  unchanged and the clock was read once. The call fails to return exactly when the sequence
  wraps and no later reading is after \<open>lastTimestamp\<close>. In a sequence of calls that run
  one after the other, the (timestamp, sequence) pairs of the calls that returned an
  identifier are all different, and the identifier returned 4096 identifiers after another
  has a strictly greater effective millisecond.
\<close>

theorem sequence_wraps_to_next_millisecond:
  "(now_ms clk i = lastTimestamp w \<longrightarrow>
      (\<forall>r j w'. Next clk i w = Some (r, j, w') \<longrightarrow>
         (\<exists>x. r = Inr x)
         \<and> sequence w' = (sequence w + 1) AND 4095
         \<and> uint (sequence w') = (uint (sequence w) + 1) mod 4096
         \<and> (if sequence w' = 0
            then spun clk (Suc i) (lastTimestamp w) (lastTimestamp w', j)
            else lastTimestamp w' = lastTimestamp w \<and> j = Suc i))
      \<and> (Next clk i w = None \<longleftrightarrow>
           (sequence w + 1) AND 4095 = 0 \<and> (\<forall>k>i. now_ms clk k \<le>s lastTimestamp w)))
   \<and> (calls clk n i w = Some cs \<longrightarrow>
        distinct (map (\<lambda>c. (lastTimestamp (after c), sequence (after c))) (issued cs))
        \<and> (\<forall>k. k + 4096 < length (issued cs) \<longrightarrow>
              lastTimestamp (after (issued cs ! k))
                <s lastTimestamp (after (issued cs ! (k + 4096)))))"
proof (intro conjI impI allI)
  fix r j w'
  assume eq: "now_ms clk i = lastTimestamp w" and nx: "Next clk i w = Some (r, j, w')"
  have "\<not> now_ms clk i <s lastTimestamp w" using eq by simp
  with nx obtain x where x: "r = Inr x" by (cases r) (auto dest: Next_Inl)
  then show "\<exists>x. r = Inr x" by blast
  from nx x have n: "Next clk i w = Some (Inr x, j, w')" by simp
  from Next_Inr(7)[OF n eq] show s: "sequence w' = (sequence w + 1) AND 4095"
    by (simp add: sequenceMask_eq)
  show "uint (sequence w') = (uint (sequence w) + 1) mod 4096"
    unfolding s by (rule seq_step_mod)
  show "if sequence w' = 0
        then spun clk (Suc i) (lastTimestamp w) (lastTimestamp w', j)
        else lastTimestamp w' = lastTimestamp w \<and> j = Suc i"
  proof (cases "sequence w' = 0")
    case True
    with Next_Inr(9)[OF n eq] show ?thesis by simp
  next
    case False
    from Next_Inr(8)[OF n eq False] Next_Inr(5)[OF n] eq False show ?thesis by simp
  qed
next
  assume eq: "now_ms clk i = lastTimestamp w"
  show "Next clk i w = None \<longleftrightarrow>
          (sequence w + 1) AND 4095 = 0 \<and> (\<forall>k>i. now_ms clk k \<le>s lastTimestamp w)"
  proof
    assume none: "Next clk i w = None"
    have z: "(sequence w + 1) AND 4095 = 0"
    proof (rule ccontr)
      assume "(sequence w + 1) AND 4095 \<noteq> 0"
      with eq none show False by (simp add: Next_same sequenceMask_eq)
    qed
    with eq none have t: "tilNextMillis clk (Suc i) (lastTimestamp w) = None"
      by (auto simp: Next_wrap sequenceMask_eq split: option.splits prod.splits)
    have "now_ms clk k \<le>s lastTimestamp w" if "i < k" for k
    proof (rule ccontr)
      assume "\<not> now_ms clk k \<le>s lastTimestamp w"
      then have "lastTimestamp w <s now_ms clk (Suc i + (k - Suc i))"
        using that by (simp add: signed.not_le)
      with tilNextMillis_returns t show False by fastforce
    qed
    with z show "(sequence w + 1) AND 4095 = 0 \<and> (\<forall>k>i. now_ms clk k \<le>s lastTimestamp w)"
      by blast
  next
    assume a: "(sequence w + 1) AND 4095 = 0 \<and> (\<forall>k>i. now_ms clk k \<le>s lastTimestamp w)"
    then have "tilNextMillis clk (Suc i) (lastTimestamp w) = None"
      by (intro tilNextMillis_None) auto
    with a eq show "Next clk i w = None" by (simp add: Next_wrap sequenceMask_eq)
  qed
next
  assume run: "calls clk n i w = Some cs"
  let ?key = "\<lambda>c. (lastTimestamp (after c), sequence (after c))"
  from calls_issued_sorted[OF run]
  have vs: "\<forall>c \<in> set (issued cs). valid_seq (after c)"
    and sr: "sorted_wrt (\<lambda>a b. rank (after a) < rank (after b)) (issued cs)" by simp_all
  have "sorted_wrt (\<lambda>a b. ?key a \<noteq> ?key b) (issued cs)"
  proof (rule sorted_wrt_mono_rel[OF _ sr])
    fix a b
    assume "a \<in> set (issued cs)" "b \<in> set (issued cs)" "rank (after a) < rank (after b)"
    then show "?key a \<noteq> ?key b" by (auto simp: rank_def)
  qed
  then show "distinct (map ?key (issued cs))"
    by (simp add: distinct_map_wrt)
  fix k
  assume k: "k + 4096 < length (issued cs)"
  from sorted_wrt_int_gap[OF sr k]
  have "rank (after (issued cs ! k)) + 4096 \<le> rank (after (issued cs ! (k + 4096)))" by simp
  moreover from vs k have "valid_seq (after (issued cs ! k))"
    "valid_seq (after (issued cs ! (k + 4096)))" by simp_all
  ultimately show "lastTimestamp (after (issued cs ! k))
      <s lastTimestamp (after (issued cs ! (k + 4096)))"
    by (intro rank_gap_4096)
qed

theorem sequence_wraps_to_next_millisecond_witness:
  "(now_ms (readings (replicate 4097 1546272000100000000) 1546272000101000000) 4096
      = 1546272000100
    \<and> Next (readings (replicate 4097 1546272000100000000) 1546272000101000000) 4096
         \<lparr>workerID = 0, datacenterID = 0, sequence = 4095, lastTimestamp = 1546272000100\<rparr> =
        Some (Inr 423624704, 4098,
              \<lparr>workerID = 0, datacenterID = 0, sequence = 0, lastTimestamp = 1546272000101\<rparr>)
    \<and> spun (readings (replicate 4097 1546272000100000000) 1546272000101000000) 4097
         1546272000100 (1546272000101, 4098))
   \<and> (now_ms (readings [] 1546272000100000000) (Suc 0) = 1546272000100
      \<and> Next (readings [] 1546272000100000000) (Suc 0)
           \<lparr>workerID = 0, datacenterID = 0, sequence = 0, lastTimestamp = 1546272000100\<rparr> =
          Some (Inr 419430401, Suc (Suc 0),
                \<lparr>workerID = 0, datacenterID = 0, sequence = 1,
                   lastTimestamp = 1546272000100\<rparr>))
   \<and> (((4095 :: int64) + 1) AND 4095 = 0
      \<and> Next (readings [] 1546272000100000000) 0
           \<lparr>workerID = 0, datacenterID = 0, sequence = 4095, lastTimestamp = 1546272000100\<rparr>
         = None)
   \<and> (\<exists>cs. calls (readings (replicate 4097 1546272000100000000) 1546272000101000000) 4097 0
               DefaultWorker = Some cs
          \<and> length (issued cs) = 4097
          \<and> lastTimestamp (after (issued cs ! 0)) = 1546272000100
          \<and> lastTimestamp (after (issued cs ! (0 + 4096))) = 1546272000101
          \<and> lastTimestamp (after (issued cs ! 0))
               <s lastTimestamp (after (issued cs ! (0 + 4096))))"
proof -
  let ?burst = "readings (replicate 4097 1546272000100000000) 1546272000101000000"
  let ?stop = "readings [] 1546272000100000000"
  let ?w0 = "\<lparr>workerID = 0, datacenterID = 0, sequence = 0, lastTimestamp = 1546272000100\<rparr>"
  let ?w1 = "\<lparr>workerID = 0, datacenterID = 0, sequence = 1, lastTimestamp = 1546272000100\<rparr>"
  let ?wf = "\<lparr>workerID = 0, datacenterID = 0, sequence = 4095, lastTimestamp = 1546272000100\<rparr>"
  let ?wn = "\<lparr>workerID = 0, datacenterID = 0, sequence = 0, lastTimestamp = 1546272000101\<rparr>"
  have a1: "now_ms ?burst 4096 = 1546272000100" by (simp add: now_ms_burst)
  have a2: "Next ?burst 4096 ?wf = Some (Inr 423624704, 4098, ?wn)"
    by (rule Next_example_burst_wrap)
  from sequence_wraps_to_next_millisecond[of ?burst 4096 ?wf] a1 a2
  have a3: "spun ?burst 4097 1546272000100 (1546272000101, 4098)" by simp
  have b1: "now_ms ?stop (Suc 0) = 1546272000100" by (rule now_ms_stopped)
  have b2: "Next ?stop (Suc 0) ?w0 = Some (Inr 419430401, Suc (Suc 0), ?w1)"
    by (rule Next_example_same)
  have c1: "((4095 :: int64) + 1) AND 4095 = 0" by simp
  have "\<forall>k>0. now_ms ?stop k \<le>s lastTimestamp ?wf" by (simp add: now_ms_stopped)
  with sequence_wraps_to_next_millisecond[of ?stop 0 ?wf] c1
  have c2: "Next ?stop 0 ?wf = None" by (simp add: now_ms_stopped)
  from calls_example_burst obtain cs1
    where l: "length cs1 = 4095" and ok: "\<forall>c \<in> set cs1. \<not> isl (returned c)"
      and run: "calls ?burst 4097 0 DefaultWorker =
         Some (\<lparr>at = 0, before = DefaultWorker, returned = Inr 419430400, after = ?w0\<rparr>
               # cs1 @ [\<lparr>at = 4096, before = ?wf, returned = Inr 423624704, after = ?wn\<rparr>])"
    by blast
  let ?cs = "\<lparr>at = 0, before = DefaultWorker, returned = Inr 419430400, after = ?w0\<rparr>
               # cs1 @ [\<lparr>at = 4096, before = ?wf, returned = Inr 423624704, after = ?wn\<rparr>]"
  from ok have "filter (\<lambda>c. \<not> isl (returned c)) cs1 = cs1" by simp
  then have all: "issued ?cs = ?cs" by (simp add: issued_def)
  from l have len: "length (issued ?cs) = 4097" by (simp add: all)
  have n0: "lastTimestamp (after (issued ?cs ! 0)) = 1546272000100" by (simp add: all)
  have "(cs1 @ [\<lparr>at = 4096, before = ?wf, returned = Inr 423624704, after = ?wn\<rparr>]) ! 4095
          = \<lparr>at = 4096, before = ?wf, returned = Inr 423624704, after = ?wn\<rparr>"
    using l nth_append_length[of cs1] by simp
  then have nl: "lastTimestamp (after (issued ?cs ! (0 + 4096))) = 1546272000101"
    by (simp add: all)
  from sequence_wraps_to_next_millisecond[of ?burst 0 DefaultWorker 4097 ?cs] run len
  have lt: "lastTimestamp (after (issued ?cs ! 0))
              <s lastTimestamp (after (issued ?cs ! (0 + 4096)))" by simp
  from run len n0 nl lt
  have d: "\<exists>cs. calls ?burst 4097 0 DefaultWorker = Some cs
          \<and> length (issued cs) = 4097
          \<and> lastTimestamp (after (issued cs ! 0)) = 1546272000100
          \<and> lastTimestamp (after (issued cs ! (0 + 4096))) = 1546272000101
          \<and> lastTimestamp (after (issued cs ! 0))
               <s lastTimestamp (after (issued cs ! (0 + 4096)))" by blast
  from a1 a2 a3 b1 b2 c1 c2 d show ?thesis by blast
qed

text \<open>
  C4. The increment modulo 4096, the wait on a wrap and the adoption of the later reading
  are as the claim says, and no (timestamp, sequence) pair is repeated by calls that run one
  after the other (above). The code does not keep the pairs distinct for calls that overlap,
  which the mutex is there to order: the reading of the clock and its comparison with
  \<open>lastTimestamp\<close> come before \<open>Lock\<close>. The default generator, having returned 4096
  identifiers in millisecond 1546272000100, is called by two goroutines. Both read
  1546272000100 and pass the comparison. The first wraps the sequence, waits, stores
  1546272000101 and returns 423624704. The second, holding a reading that differs from the
  stored 1546272000101, takes the \<open>else\<close> branch, stores sequence 0 and 1546272000100, and
  returns 419430400: the pair (1546272000100, 0) and the identifier of the first of the 4096
  calls, again.
\<close>

theorem overlapping_calls_repeat_pair:
  "\<exists>cs ov.
     calls (readings (replicate 4098 1546272000100000000) 1546272000101000000) 4096 0
           DefaultWorker = Some cs
     \<and> length (issued cs) = 4096
     \<and> returned (hd cs) = Inr 419430400
     \<and> (lastTimestamp (after (hd cs)), sequence (after (hd cs))) = (1546272000100, 0)
     \<and> after (last cs) =
         \<lparr>workerID = 0, datacenterID = 0, sequence = 4095, lastTimestamp = 1546272000100\<rparr>
     \<and> overlapping (readings (replicate 4098 1546272000100000000) 1546272000101000000) 4096
           (after (last cs)) = Some ov
     \<and> map returned ov = [Inr 423624704, Inr 419430400]
     \<and> map (\<lambda>c. (lastTimestamp (after c), sequence (after c))) ov
         = [(1546272000101, 0), (1546272000100, 0)]
     \<and> \<not> distinct (map (\<lambda>c. (lastTimestamp (after c), sequence (after c))) (issued (cs @ ov)))"
proof -
  let ?clk = "readings (replicate 4098 1546272000100000000) 1546272000101000000"
  let ?w1 = "\<lparr>workerID = 0, datacenterID = 0, sequence = 0, lastTimestamp = 1546272000100\<rparr>"
  let ?w2 = "\<lparr>workerID = 0, datacenterID = 0, sequence = 0, lastTimestamp = 1546272000101\<rparr>"
  let ?wf = "\<lparr>workerID = 0, datacenterID = 0, sequence = 4095, lastTimestamp = 1546272000100\<rparr>"
  let ?c0 = "\<lparr>at = 0, before = DefaultWorker, returned = Inr 419430400, after = ?w1\<rparr>"
  let ?ov = "[\<lparr>at = 4096, before = ?wf, returned = Inr 423624704, after = ?w2\<rparr>,
              \<lparr>at = 4097, before = ?w2, returned = Inr 419430400, after = ?w1\<rparr>]"
  let ?key = "\<lambda>c. (lastTimestamp (after c), sequence (after c))"
  from calls_example_race obtain cs1
    where run: "calls ?clk 4096 0 DefaultWorker = Some (?c0 # cs1)"
      and len: "length cs1 = 4095" and ok: "\<forall>c \<in> set cs1. \<not> isl (returned c)"
      and fin: "after (last cs1) = ?wf"
    by blast
  let ?cs = "?c0 # cs1"
  from len have ne: "cs1 \<noteq> []" by auto
  from ok have f: "filter (\<lambda>c. \<not> isl (returned c)) cs1 = cs1" by simp
  then have "issued ?cs = ?cs" by (simp add: issued_def)
  with len have l: "length (issued ?cs) = 4096" by simp
  from ne fin have last: "after (last ?cs) = ?wf" by simp
  have ov: "overlapping ?clk 4096 (after (last ?cs)) = Some ?ov"
    unfolding last by (rule overlapping_example_race)
  have "issued (?cs @ ?ov) = ?c0 # cs1 @ ?ov" by (simp add: issued_def f)
  then have nd: "\<not> distinct (map ?key (issued (?cs @ ?ov)))" by simp
  have hd: "returned (hd ?cs) = Inr 419430400"
    "(lastTimestamp (after (hd ?cs)), sequence (after (hd ?cs))) = (1546272000100, 0)"
    by simp_all
  have m: "map returned ?ov = [Inr 423624704, Inr 419430400]"
    "map ?key ?ov = [(1546272000101, 0), (1546272000100, 0)]"
    by simp_all
  show ?thesis
    by (rule exI[of _ ?cs], rule exI[of _ ?ov]) (intro conjI run l hd last ov m nd)
qed

text \<open>
  C5. In a call of \<open>Next\<close> that returns an identifier, a reading of the clock after
  \<open>lastTimestamp\<close> sets \<open>sequence\<close> to 0 and is itself the effective millisecond; in every
  such call the effective millisecond, the last reading the call made, is the value stored
  in \<open>lastTimestamp\<close>, and the identifier is composed from the stored values.
\<close>

theorem Next_reset_and_store:
  assumes "Next clk i w = Some (Inr x, j, w')"
  shows "(lastTimestamp w <s now_ms clk i \<longrightarrow>
            sequence w' = 0 \<and> lastTimestamp w' = now_ms clk i \<and> j = Suc i)
         \<and> i < j \<and> lastTimestamp w' = now_ms clk (j - 1)
         \<and> x = compose (lastTimestamp w') w'"
  using Next_Inr(2,4,5,6)[OF assms] by auto

theorem Next_reset_and_store_witness:
  "Next (readings [] 1546272000100000000) 0 DefaultWorker =
       Some (Inr 419430400, Suc 0,
             \<lparr>workerID = 0, datacenterID = 0, sequence = 0, lastTimestamp = 1546272000100\<rparr>)
   \<and> lastTimestamp DefaultWorker <s now_ms (readings [] 1546272000100000000) 0
   \<and> sequence \<lparr>workerID = 0, datacenterID = 0, sequence = 0, lastTimestamp = 1546272000100\<rparr> = 0
   \<and> now_ms (readings [] 1546272000100000000) 0 = 1546272000100"
  using Next_reset_and_store[OF Next_example_fresh[of 0]] Next_example_fresh[of 0]
  by (simp add: DefaultWorker_def now_ms_stopped word_sless_alt)

text \<open>
  C6. \<open>NewWorker\<close> on two values of at most 31 returns a generator with these identity
  fields and with \<open>sequence\<close> and \<open>lastTimestamp\<close> zero. On a value of 32 or more in either
  argument it ends in \<open>log.Fatalf\<close>, which reports the bound and returns no generator; the
  worker ID is checked first.
\<close>

theorem NewWorker_range:
  "(wid \<le> 31 \<and> dcid \<le> 31 \<longrightarrow>
      NewWorker wid dcid =
        Inr \<lparr>workerID = ucast wid, datacenterID = ucast dcid, sequence = 0, lastTimestamp = 0\<rparr>)
   \<and> (32 \<le> wid \<longrightarrow> NewWorker wid dcid = Inl (FatalWorkerID 31))
   \<and> (wid \<le> 31 \<and> 32 \<le> dcid \<longrightarrow> NewWorker wid dcid = Inl (FatalDatacenterID 31))"
proof -
  have "32 \<le> wid \<longleftrightarrow> 31 < uint wid" "32 \<le> dcid \<longleftrightarrow> 31 < uint dcid"
    "wid \<le> 31 \<longleftrightarrow> uint wid \<le> 31" "dcid \<le> 31 \<longleftrightarrow> uint dcid \<le> 31"
    by (auto simp: word_le_def)
  then show ?thesis
    by (auto simp: NewWorker_def maxWorkerID_eq maxDatacenterID_eq)
qed

theorem NewWorker_range_witness:
  "((31 :: uint8) \<le> 31 \<and>
    NewWorker 31 31 = Inr \<lparr>workerID = 31, datacenterID = 31, sequence = 0, lastTimestamp = 0\<rparr>)
   \<and> ((32 :: uint8) \<le> 32 \<and> NewWorker 32 0 = Inl (FatalWorkerID 31))
   \<and> ((0 :: uint8) \<le> 31 \<and> (32 :: uint8) \<le> 255 \<and> NewWorker 0 255 = Inl (FatalDatacenterID 31))"
  using NewWorker_range[of 31 31] NewWorker_range[of 32 0] NewWorker_range[of 0 255]
  by simp

text \<open>
  C7. Every identifier returned by a generator that \<open>NewWorker\<close> built decodes, by the
  inverse shifts, to the worker ID (bits 12 to 16) and the datacenter ID (bits 17 to 21)
  given to \<open>NewWorker\<close>.
\<close>

theorem decode_recovers_identity:
  assumes "NewWorker wid dcid = Inr w" "calls clk n i w = Some cs" "x \<in> set (ids cs)"
  shows "decode_worker x = ucast wid \<and> decode_datacenter x = ucast dcid"
proof -
  from assms(2,3) obtain c where c: "c \<in> set (issued cs)"
    and x: "x = compose (lastTimestamp (after c)) (after c)"
    by (auto simp: ids_issued)
  from c have "c \<in> set cs" by (simp add: issued_def)
  with calls_ids[OF assms(2) NewWorker_valid(1)[OF assms(1)]]
  have "valid_ids (after c)" "workerID (after c) = workerID w"
    "datacenterID (after c) = datacenterID w" by simp_all
  moreover from calls_issued_sorted[OF assms(2)] c have "valid_seq (after c)" by simp
  ultimately show ?thesis
    using NewWorker_valid(3,4)[OF assms(1)] x
    by (simp add: decode_worker_compose decode_datacenter_compose)
qed

theorem decode_recovers_identity_witness:
  "NewWorker 1 0 = Inr \<lparr>workerID = 1, datacenterID = 0, sequence = 0, lastTimestamp = 0\<rparr>
   \<and> calls (readings [] 1546272000100000000) (Suc 0) 0
         \<lparr>workerID = 1, datacenterID = 0, sequence = 0, lastTimestamp = 0\<rparr> =
       Some [\<lparr>at = 0,
               before = \<lparr>workerID = 1, datacenterID = 0, sequence = 0, lastTimestamp = 0\<rparr>,
               returned = Inr 419434496,
               after = \<lparr>workerID = 1, datacenterID = 0, sequence = 0,
                         lastTimestamp = 1546272000100\<rparr>\<rparr>]
   \<and> decode_worker 419434496 = 1 \<and> decode_datacenter 419434496 = 0"
proof -
  let ?w = "\<lparr>workerID = 1, datacenterID = 0, sequence = 0, lastTimestamp = 0\<rparr>"
  let ?cs = "[\<lparr>at = 0, before = ?w, returned = Inr 419434496,
               after = \<lparr>workerID = 1, datacenterID = 0, sequence = 0,
                         lastTimestamp = 1546272000100\<rparr>\<rparr>]"
  have run: "calls (readings [] 1546272000100000000) (Suc 0) 0 ?w = Some ?cs"
    by (simp add: Next_example_worker_1_0)
  have "(419434496 :: int64) \<in> set (ids ?cs)" by simp
  from decode_recovers_identity[OF NewWorker_examples(4) run this]
  have "decode_worker 419434496 = 1 \<and> decode_datacenter 419434496 = 0" by simp
  with NewWorker_examples(4) run show ?thesis by simp
qed

text \<open>
  C8. Two generators whose (workerID, datacenterID) pairs differ never return the same
  identifier, whatever the millisecond and the sequence of the two calls; in particular
  not at the same effective millisecond and the same sequence.
\<close>

theorem distinct_generators_distinct_ids:
  assumes "valid_ids a" "valid_ids b"
    and "(workerID a, datacenterID a) \<noteq> (workerID b, datacenterID b)"
    and "Next clk i a = Some (Inr x, j, a')" "Next clk' i' b = Some (Inr y, j', b')"
  shows "x \<noteq> y"
proof
  assume "x = y"
  moreover have "x = compose (lastTimestamp a') a'" "y = compose (lastTimestamp b') b'"
    using assms(4,5) by (auto dest: Next_Inr(2))
  ultimately have "compose (lastTimestamp a') a' = compose (lastTimestamp b') b'" by simp
  moreover have "valid_ids a'" "valid_ids b'" "valid_seq a'" "valid_seq b'"
    using assms by (auto dest: Next_valid_ids Next_valid_seq)
  ultimately have "workerID a' = workerID b' \<and> datacenterID a' = datacenterID b'"
    by (intro compose_ids_inj)
  moreover have "a' = a\<lparr>sequence := sequence a', lastTimestamp := lastTimestamp a'\<rparr>"
    "b' = b\<lparr>sequence := sequence b', lastTimestamp := lastTimestamp b'\<rparr>"
    using assms(4,5) by (auto dest: Next_Inr(3))
  then have "workerID a' = workerID a" "datacenterID a' = datacenterID a"
    "workerID b' = workerID b" "datacenterID b' = datacenterID b"
    by (auto dest: Next_unchanged_ids)
  ultimately show False using assms(3) by simp
qed

theorem distinct_generators_distinct_ids_witness:
  "valid_ids \<lparr>workerID = 1, datacenterID = 0, sequence = 0, lastTimestamp = 0\<rparr>
   \<and> valid_ids \<lparr>workerID = 0, datacenterID = 1, sequence = 0, lastTimestamp = 0\<rparr>
   \<and> Next (readings [] 1546272000100000000) 0
        \<lparr>workerID = 1, datacenterID = 0, sequence = 0, lastTimestamp = 0\<rparr> =
       Some (Inr 419434496, Suc 0,
             \<lparr>workerID = 1, datacenterID = 0, sequence = 0, lastTimestamp = 1546272000100\<rparr>)
   \<and> Next (readings [] 1546272000100000000) 0
        \<lparr>workerID = 0, datacenterID = 1, sequence = 0, lastTimestamp = 0\<rparr> =
       Some (Inr 419561472, Suc 0,
             \<lparr>workerID = 0, datacenterID = 1, sequence = 0, lastTimestamp = 1546272000100\<rparr>)
   \<and> (419434496 :: int64) \<noteq> 419561472"
proof -
  have a: "valid_ids \<lparr>workerID = 1, datacenterID = 0, sequence = 0, lastTimestamp = 0\<rparr>"
    and b: "valid_ids \<lparr>workerID = 0, datacenterID = 1, sequence = 0, lastTimestamp = 0\<rparr>"
    by (simp_all add: valid_ids_def maxWorkerID_eq maxDatacenterID_eq)
  from distinct_generators_distinct_ids[OF a b _ Next_example_worker_1_0[of 0] Next_example_worker_0_1[of 0]]
  have "(419434496 :: int64) \<noteq> 419561472" by simp
  with a b Next_example_worker_1_0[of 0] Next_example_worker_0_1[of 0] show ?thesis by simp
qed

text \<open>
  C9. On a generator with \<open>workerID = 0\<close> and \<open>datacenterID = 0\<close>, a call of \<open>Next\<close> whose
  effective millisecond is 1546272000100, which is 100 ms after the epoch constant
  1546272000000, and whose sequence is 0 returns \<open>100 << 22\<close>: the timestamp field reads
  100, the worker, datacenter and sequence fields read 0.
\<close>

theorem Next_100ms_after_epoch:
  assumes "workerID w = 0" "datacenterID w = 0"
    and "Next clk i w = Some (Inr x, j, w')"
    and "lastTimestamp w' = 1546272000100" "sequence w' = 0"
  shows "twepoch = 1546272000000 \<and> x = push_bit 22 100
         \<and> decode_timestamp x = 100 \<and> decode_worker x = 0
         \<and> decode_datacenter x = 0 \<and> decode_sequence x = 0"
proof -
  from assms(3) have "x = compose (lastTimestamp w') w'" by (rule Next_Inr(2))
  moreover from assms(3) have "w' = w\<lparr>sequence := sequence w', lastTimestamp := lastTimestamp w'\<rparr>"
    by (rule Next_Inr(3))
  then have "workerID w' = workerID w" "datacenterID w' = datacenterID w"
    by (rule Next_unchanged_ids)+
  ultimately have x: "x = 419430400"
    using assms(1,2,4,5) by (simp add: compose_def shifts_eq twepoch_def)
  show ?thesis
    unfolding x
    by (simp add: twepoch_def decode_timestamp_def decode_worker_def decode_datacenter_def
        decode_sequence_def shifts_eq maxWorkerID_eq maxDatacenterID_eq sequenceMask_eq)
qed

theorem Next_100ms_after_epoch_witness:
  "workerID DefaultWorker = 0 \<and> datacenterID DefaultWorker = 0
   \<and> Next (readings [] 1546272000100000000) 0 DefaultWorker =
       Some (Inr 419430400, Suc 0,
             \<lparr>workerID = 0, datacenterID = 0, sequence = 0, lastTimestamp = 1546272000100\<rparr>)
   \<and> (419430400 :: int64) = push_bit 22 100
   \<and> decode_timestamp 419430400 = 100 \<and> decode_worker 419430400 = 0
   \<and> decode_datacenter 419430400 = 0 \<and> decode_sequence 419430400 = 0"
  using Next_100ms_after_epoch[OF _ _ Next_example_fresh[of 0]] Next_example_fresh[of 0]
  by (simp add: DefaultWorker_def)

text \<open>
  C10. Every call of \<open>Next\<close> that returns, with an identifier or with the clock error, leaves
  \<open>workerID\<close> and \<open>datacenterID\<close> as they were: the generator after the call is the
  generator before it with, at most, \<open>sequence\<close> and \<open>lastTimestamp\<close> assigned.
\<close>

theorem Next_frame:
  assumes "Next clk i w = Some (r, j, w')"
  shows "workerID w' = workerID w \<and> datacenterID w' = datacenterID w
         \<and> w' = w\<lparr>sequence := sequence w', lastTimestamp := lastTimestamp w'\<rparr>"
proof (cases r)
  case (Inl e)
  with assms have "now_ms clk i <s lastTimestamp w" by (auto dest: Next_Inl)
  with assms show ?thesis by (simp add: Next_regress)
next
  case (Inr x)
  with assms have eq: "w' = w\<lparr>sequence := sequence w', lastTimestamp := lastTimestamp w'\<rparr>"
    by (auto dest: Next_Inr(3))
  from Next_unchanged_ids[OF eq] eq show ?thesis by simp
qed

theorem Next_frame_witness:
  "Next (readings [] 1546272000100000000) 0 DefaultWorker =
     Some (Inr 419430400, Suc 0,
           \<lparr>workerID = 0, datacenterID = 0, sequence = 0, lastTimestamp = 1546272000100\<rparr>)
   \<and> workerID \<lparr>workerID = 0, datacenterID = 0, sequence = 0, lastTimestamp = 1546272000100\<rparr>
       = workerID DefaultWorker
   \<and> datacenterID \<lparr>workerID = 0, datacenterID = 0, sequence = 0, lastTimestamp = 1546272000100\<rparr>
       = datacenterID DefaultWorker"
  using Next_frame[OF Next_example_fresh[of 0]] Next_example_fresh[of 0] by simp

end
